theory Spec2Isabelle
  imports Complex_Main "HOL-Library.AList" "HOL-Library.Sublist" "HOL-Library.Product_Lexorder"
begin

section \<open>Python values used by the server\<close>

text \<open>
  Strings are lists of characters; a character stands for a code point below 256.
  \<open>x or d\<close> on an optional string takes the default when \<open>x\<close> is \<open>None\<close> or empty.
\<close>

definition py_or :: "string option \<Rightarrow> string \<Rightarrow> string" where
  "py_or x d = (case x of None \<Rightarrow> d | Some s \<Rightarrow> if s = [] then d else s)"

text \<open>An f-string renders \<open>None\<close> as the word None.\<close>

definition py_format_opt :: "string option \<Rightarrow> string" where
  "py_format_opt x = (case x of None \<Rightarrow> ''None'' | Some s \<Rightarrow> s)"

text \<open>\<open>w in content\<close> on strings: \<open>w\<close> occurs as a contiguous substring.\<close>

fun py_in :: "string \<Rightarrow> string \<Rightarrow> bool" where
  "py_in w [] = (w = [])"
| "py_in w (c # cs) = (prefix w (c # cs) \<or> py_in w cs)"

text \<open>\<open>str.lower\<close> on code points below 256.\<close>

definition py_lower_char :: "char \<Rightarrow> char" where
  "py_lower_char c =
     (let n = (of_char c :: nat) in
      if (65 \<le> n \<and> n \<le> 90) \<or> (192 \<le> n \<and> n \<le> 222 \<and> n \<noteq> 215)
      then char_of (n + 32) else c)"

definition py_lower :: "string \<Rightarrow> string" where
  "py_lower s = map py_lower_char s"

text \<open>\<open>str.split()\<close> without arguments: the maximal runs of non-whitespace.\<close>

definition py_isspace :: "char \<Rightarrow> bool" where
  "py_isspace c =
     (let n = (of_char c :: nat) in
      (9 \<le> n \<and> n \<le> 13) \<or> (28 \<le> n \<and> n \<le> 32) \<or> n = 133 \<or> n = 160)"

fun py_split_acc :: "string \<Rightarrow> string \<Rightarrow> string list" where
  "py_split_acc w [] = (if w = [] then [] else [w])"
| "py_split_acc w (c # cs) =
     (if py_isspace c then (if w = [] then py_split_acc [] cs else w # py_split_acc [] cs)
      else py_split_acc (w @ [c]) cs)"

definition py_split :: "string \<Rightarrow> string list" where
  "py_split s = py_split_acc [] s"

text \<open>\<open>repr\<close> of a string, and \<open>str\<close> of the list of message dicts.\<close>

definition py_printable :: "char \<Rightarrow> bool" where
  "py_printable c =
     (let n = (of_char c :: nat) in (32 \<le> n \<and> n < 127) \<or> (161 \<le> n \<and> n \<noteq> 173))"

definition hex_digit :: "nat \<Rightarrow> char" where
  "hex_digit n = ''0123456789abcdef'' ! (n mod 16)"

definition py_repr_char :: "char \<Rightarrow> char \<Rightarrow> string" where
  "py_repr_char q c =
     (if c = CHR 0x5C then [CHR 0x5C, CHR 0x5C]
      else if c = q then [CHR 0x5C, q]
      else if c = CHR 0x09 then [CHR 0x5C, CHR ''t'']
      else if c = CHR 0x0A then [CHR 0x5C, CHR ''n'']
      else if c = CHR 0x0D then [CHR 0x5C, CHR ''r'']
      else if py_printable c then [c]
      else [CHR 0x5C, CHR ''x'', hex_digit (of_char c div 16), hex_digit (of_char c)])"

definition py_repr_str :: "string \<Rightarrow> string" where
  "py_repr_str s =
     (let q = (if CHR 0x27 \<in> set s \<and> CHR 0x22 \<notin> set s then CHR 0x22 else CHR 0x27)
      in [q] @ concat (map (py_repr_char q) s) @ [q])"

fun py_join :: "string \<Rightarrow> string list \<Rightarrow> string" where
  "py_join sep [] = []"
| "py_join sep [x] = x"
| "py_join sep (x # y # ys) = x @ sep @ py_join sep (y # ys)"

record message =
  role :: string
  content :: string

definition py_str_message :: "message \<Rightarrow> string" where
  "py_str_message m =
     [CHR 0x7B, CHR 0x27] @ ''role'' @ [CHR 0x27] @ '': '' @ py_repr_str (role m) @ '', '' @
     [CHR 0x27] @ ''content'' @ [CHR 0x27] @ '': '' @ py_repr_str (content m) @ [CHR 0x7D]"

definition py_str_messages :: "message list \<Rightarrow> string" where
  "py_str_messages ms = ''['' @ py_join '', '' (map py_str_message ms) @ '']''"

text \<open>\<open>xs[:n]\<close>: a negative bound counts from the end.\<close>

definition py_slice_to :: "int \<Rightarrow> 'a list \<Rightarrow> 'a list" where
  "py_slice_to n xs =
     (if 0 \<le> n then take (nat n) xs else take (length xs - nat (- n)) xs)"

text \<open>
  A float is a finite number (taken as a rational), an infinity or NaN. The comparison
  \<open>a >= b\<close> is false as soon as one side is NaN.
\<close>

datatype py_float = NegInf | Finite rat | PosInf | NaN

fun py_float_ge :: "py_float \<Rightarrow> py_float \<Rightarrow> bool" where
  "py_float_ge NaN b = False"
| "py_float_ge a NaN = False"
| "py_float_ge PosInf b = True"
| "py_float_ge a NegInf = True"
| "py_float_ge (Finite x) (Finite y) = (y \<le> x)"
| "py_float_ge a b = False"

section \<open>The ephemeral store\<close>

subsection \<open>Glob patterns of the KEYS command\<close>

text \<open>
  KEYS matches glob-style: \<open>*\<close> any run of characters, \<open>?\<close> one character,
  \<open>[...]\<close> a character class (\<open>^\<close> negates, \<open>a-z\<close> is a range), and a backslash
  takes the next character literally. A class that is not closed runs to the end of the
  pattern. Ranges compare code points.
\<close>

datatype gtok = GStar | GAny | GLit char | GClass bool "(char \<times> char) list"

fun glob_class :: "string \<Rightarrow> (char \<times> char) list \<times> string" where
  "glob_class [] = ([], [])"
| "glob_class [a] = (if a = CHR '']'' then ([], []) else ([(a, a)], []))"
| "glob_class [a, b] =
     (if a = CHR 0x5C then ([(b, b)], [])
      else if a = CHR '']'' then ([], [b])
      else (case glob_class [b] of (rs, rest) \<Rightarrow> ((a, a) # rs, rest)))"
| "glob_class (a # b # c # p) =
     (if a = CHR 0x5C then (case glob_class (c # p) of (rs, rest) \<Rightarrow> ((b, b) # rs, rest))
      else if a = CHR '']'' then ([], b # c # p)
      else if b = CHR ''-''
        then (case glob_class p of (rs, rest) \<Rightarrow>
                ((if (of_char a :: nat) \<le> of_char c then (a, c) else (c, a)) # rs, rest))
      else (case glob_class (b # c # p) of (rs, rest) \<Rightarrow> ((a, a) # rs, rest)))"

lemma glob_class_length: "length (snd (glob_class p)) \<le> length p"
  by (induction p rule: glob_class.induct) (auto split: prod.splits)

function glob_parse :: "string \<Rightarrow> gtok list" where
  "glob_parse [] = []"
| "glob_parse (a # p) =
     (if a = CHR ''*'' then GStar # glob_parse p
      else if a = CHR ''?'' then GAny # glob_parse p
      else if a = CHR ''[''
        then (case p of
                [] \<Rightarrow> [GClass False []]
              | b # q \<Rightarrow>
                  (if b = CHR ''^''
                   then GClass True (fst (glob_class q)) # glob_parse (snd (glob_class q))
                   else GClass False (fst (glob_class p)) # glob_parse (snd (glob_class p))))
      else if a = CHR 0x5C
        then (case p of [] \<Rightarrow> [GLit a] | b # q \<Rightarrow> GLit b # glob_parse q)
      else GLit a # glob_parse p)"
  by pat_completeness auto
termination
proof (relation "measure length", goal_cases)
  case (4 a p b q)
  then show ?case using glob_class_length [of q] by simp
next
  case (5 a p b q)
  then show ?case using glob_class_length [of "b # q"] by simp
qed simp_all

definition in_class :: "(char \<times> char) list \<Rightarrow> char \<Rightarrow> bool" where
  "in_class rs c =
     list_ex (\<lambda>(lo, hi). (of_char lo :: nat) \<le> of_char c \<and> (of_char c :: nat) \<le> of_char hi) rs"

fun glob_match :: "gtok list \<Rightarrow> string \<Rightarrow> bool" where
  "glob_match [] s = (s = [])"
| "glob_match (GStar # ts) [] = glob_match ts []"
| "glob_match (GStar # ts) (c # s) = (glob_match ts (c # s) \<or> glob_match (GStar # ts) s)"
| "glob_match (GAny # ts) [] = False"
| "glob_match (GAny # ts) (c # s) = glob_match ts s"
| "glob_match (GLit a # ts) [] = False"
| "glob_match (GLit a # ts) (c # s) = (a = c \<and> glob_match ts s)"
| "glob_match (GClass neg rs # ts) [] = False"
| "glob_match (GClass neg rs # ts) (c # s) = ((in_class rs c \<noteq> neg) \<and> glob_match ts s)"

definition glob :: "string \<Rightarrow> string \<Rightarrow> bool" where
  "glob pat s = glob_match (glob_parse pat) s"

subsection \<open>Stored documents and the Redis commands\<close>

text \<open>
  The value under a key is the JSON document \<open>store_short_term\<close> wrote: the five
  request fields, \<open>created_at\<close> and \<open>access_count\<close>. \<open>json.dumps\<close> followed by
  \<open>json.loads\<close> gives the document back, so the store holds the document itself.
  Metadata is an opaque key-value payload.
\<close>

type_synonym metadata = "(string \<times> string) list"

record short_term_data =
  messages :: "message list"
  user_id :: "string option"
  agent_id :: "string option"
  session_id :: "string option"
  metadata :: "metadata option"

record entry = short_term_data +
  created_at :: string
  access_count :: int

text \<open>
  The store is the list of its key-value pairs, in the order KEYS reports them.
  Every call to Redis may raise (the connection is lost): \<open>faults\<close> is the schedule of
  the calls to come, \<open>True\<close> for a call that raises; past its end every call succeeds.
  A call that raises returns \<open>None\<close> and changes no key. Expiry needs a clock and is
  not part of the state: the results hold for entries within their TTL.
\<close>

record redis =
  kv :: "(string \<times> entry) list"
  faults :: "bool list"

definition next_fault :: "redis \<Rightarrow> bool \<times> redis" where
  "next_fault r = (case faults r of [] \<Rightarrow> (False, r) | f # fs \<Rightarrow> (f, r\<lparr>faults := fs\<rparr>))"

definition redis_keys :: "redis \<Rightarrow> string \<Rightarrow> string list option \<times> redis" where
  "redis_keys r pat =
     (case next_fault r of (f, r') \<Rightarrow>
        if f then (None, r') else (Some (filter (glob pat) (map fst (kv r'))), r'))"

definition redis_get :: "redis \<Rightarrow> string \<Rightarrow> entry option option \<times> redis" where
  "redis_get r key =
     (case next_fault r of (f, r') \<Rightarrow>
        if f then (None, r') else (Some (map_of (kv r') key), r'))"

definition redis_set :: "redis \<Rightarrow> string \<Rightarrow> entry \<Rightarrow> unit option \<times> redis" where
  "redis_set r key v =
     (case next_fault r of (f, r') \<Rightarrow>
        if f then (None, r') else (Some (), r'\<lparr>kv := AList.update key v (kv r')\<rparr>))"

definition redis_delete :: "redis \<Rightarrow> string \<Rightarrow> unit option \<times> redis" where
  "redis_delete r key =
     (case next_fault r of (f, r') \<Rightarrow>
        if f then (None, r') else (Some (), r'\<lparr>kv := AList.delete key (kv r')\<rparr>))"

subsection \<open>Short-term memory helpers\<close>

definition SHORT_TERM_PREFIX :: string where
  "SHORT_TERM_PREFIX = ''stm:''"

definition PROMOTION_THRESHOLD :: int where
  "PROMOTION_THRESHOLD = 3"

text \<open>
  \<open>store_short_term(key, data)\<close>: \<open>now\<close> is \<open>datetime.utcnow().isoformat()\<close>.
  \<open>setex\<close> writes the key as \<open>set\<close> does, with the TTL.
\<close>

definition store_short_term ::
  "redis option \<Rightarrow> string \<Rightarrow> short_term_data \<Rightarrow> string \<Rightarrow> bool \<times> redis option" where
  "store_short_term rc key data now =
     (case rc of
        None \<Rightarrow> (False, None)
      | Some r \<Rightarrow>
          (let full_key = SHORT_TERM_PREFIX @ key;
               doc = short_term_data.extend data \<lparr>created_at = now, access_count = 0\<rparr>
           in case redis_set r full_key doc of
                (None, r') \<Rightarrow> (False, Some r')
              | (Some _, r') \<Rightarrow> (True, Some r')))"

fun get_short_term_loop ::
  "redis \<Rightarrow> string list \<Rightarrow> entry list \<Rightarrow> entry list option \<times> redis" where
  "get_short_term_loop r [] results = (Some results, r)"
| "get_short_term_loop r (key # keys) results =
     (case redis_get r key of
        (None, r1) \<Rightarrow> (None, r1)
      | (Some None, r1) \<Rightarrow> get_short_term_loop r1 keys results
      | (Some (Some data), r1) \<Rightarrow>
          (let parsed = data\<lparr>access_count := access_count data + 1\<rparr>
           in case redis_set r1 key parsed of
                (None, r2) \<Rightarrow> (None, r2)
              | (Some _, r2) \<Rightarrow> get_short_term_loop r2 keys (results @ [parsed])))"

definition get_short_term :: "redis option \<Rightarrow> string \<Rightarrow> entry list \<times> redis option" where
  "get_short_term rc pattern =
     (case rc of
        None \<Rightarrow> ([], None)
      | Some r \<Rightarrow>
          (case redis_keys r (SHORT_TERM_PREFIX @ pattern @ ''*'') of
             (None, r1) \<Rightarrow> ([], Some r1)
           | (Some keys, r1) \<Rightarrow>
               (case get_short_term_loop r1 keys [] of
                  (None, r2) \<Rightarrow> ([], Some r2)
                | (Some results, r2) \<Rightarrow> (results, Some r2))))"

text \<open>A promotable memory is the parsed document with its \<open>redis_key\<close> added.\<close>

record promotable =
  mem :: entry
  redis_key :: string

fun get_promotable_loop ::
  "redis \<Rightarrow> string list \<Rightarrow> promotable list \<Rightarrow> promotable list option \<times> redis" where
  "get_promotable_loop r [] promotable = (Some promotable, r)"
| "get_promotable_loop r (key # keys) promotable =
     (case redis_get r key of
        (None, r1) \<Rightarrow> (None, r1)
      | (Some None, r1) \<Rightarrow> get_promotable_loop r1 keys promotable
      | (Some (Some parsed), r1) \<Rightarrow>
          (if access_count parsed \<ge> PROMOTION_THRESHOLD
           then get_promotable_loop r1 keys (promotable @ [\<lparr>mem = parsed, redis_key = key\<rparr>])
           else get_promotable_loop r1 keys promotable))"

definition get_promotable_memories ::
  "redis option \<Rightarrow> string option \<Rightarrow> promotable list \<times> redis option" where
  "get_promotable_memories rc uid =
     (case rc of
        None \<Rightarrow> ([], None)
      | Some r \<Rightarrow>
          (let pattern = SHORT_TERM_PREFIX @ py_or uid ''*'' @ '':*''
           in case redis_keys r pattern of
                (None, r1) \<Rightarrow> ([], Some r1)
              | (Some keys, r1) \<Rightarrow>
                  (case get_promotable_loop r1 keys [] of
                     (None, r2) \<Rightarrow> ([], Some r2)
                   | (Some promotable, r2) \<Rightarrow> (promotable, Some r2))))"

section \<open>The durable engine and the server state\<close>

text \<open>
  The mem0 engine is outside the repository. It is a parameter: any state type \<open>'d\<close>
  with an \<open>add\<close> that returns a result or raises (\<open>None\<close>) and may change the state
  either way, and \<open>search\<close> and \<open>get_all\<close> that return their list or raise.
\<close>

record add_args =
  a_messages :: "message list"
  a_user_id :: "string option"
  a_agent_id :: "string option"
  a_run_id :: "string option"
  a_metadata :: "metadata option"

type_synonym add_result = string

record search_args =
  q_query :: string
  q_limit :: int
  q_user_id :: "string option"
  q_agent_id :: "string option"
  q_run_id :: "string option"

record ltm_hit =
  h_id :: string
  h_memory :: string
  h_user_id :: "string option"
  h_agent_id :: "string option"
  h_score :: "py_float option"
  h_metadata :: "metadata option"

type_synonym ltm_item = "(string \<times> string) list"

record 'd engine =
  mem0_add :: "'d \<Rightarrow> add_args \<Rightarrow> add_result option \<times> 'd"
  mem0_search :: "'d \<Rightarrow> search_args \<Rightarrow> ltm_hit list option"
  mem0_get_all :: "'d \<Rightarrow> string \<Rightarrow> int \<Rightarrow> ltm_item list option"

text \<open>
  The globals of the module: \<open>redis_client\<close> and \<open>memory\<close> are \<open>None\<close> when their
  initialisation at startup failed. \<open>add_calls\<close> records each invocation of
  \<open>memory.add\<close> with its arguments, in order.
\<close>

record 'd server =
  redis_client :: "redis option"
  memory :: "'d option"
  add_calls :: "add_args list"

definition memory_add ::
  "'d engine \<Rightarrow> 'd server \<Rightarrow> add_args \<Rightarrow> add_result option \<times> 'd server" where
  "memory_add eng s args =
     (case memory s of
        None \<Rightarrow> (None, s)
      | Some d \<Rightarrow>
          (case mem0_add eng d args of
             (res, d') \<Rightarrow> (res, s\<lparr>memory := Some d', add_calls := add_calls s @ [args]\<rparr>)))"

datatype http_exception = HTTPException (status_code: int) (detail: string)

section \<open>Endpoints\<close>

text \<open>
  The audit log (\<open>log_operation\<close>) and the logger are write-only, catch their own
  exceptions and return nothing: they do not appear in the state. The clock and the
  MD5 digest are inputs: \<open>strftime_now\<close> is \<open>utcnow().strftime("%Y%m%d%H%M%S")\<close>,
  \<open>isoformat_now\<close> is \<open>utcnow().isoformat()\<close> and \<open>md5_hex8 s\<close> is
  \<open>hashlib.md5(s.encode()).hexdigest()[:8]\<close>.
\<close>

record env =
  strftime_now :: string
  isoformat_now :: string
  md5_hex8 :: "string \<Rightarrow> string"

subsection \<open>add\<close>

record add_memory_request =
  add_messages :: "message list"
  add_user_id :: "string option"
  add_agent_id :: "string option"
  add_session_id :: "string option"
  add_metadata :: "metadata option"
  short_term_only :: bool

record add_response =
  success :: bool
  short_term :: bool
  long_term :: bool
  memory_key :: "string option"
  result :: "add_result option"

text \<open>The key generated for the memory, without the \<open>stm:\<close> prefix.\<close>

definition memory_key_of :: "env \<Rightarrow> add_memory_request \<Rightarrow> string" where
  "memory_key_of e request =
     py_or (add_user_id request) ''anon'' @ '':'' @ strftime_now e @ '':'' @
     md5_hex8 e (py_str_messages (add_messages request))"

definition add_memory ::
  "'d engine \<Rightarrow> env \<Rightarrow> 'd server \<Rightarrow> add_memory_request
     \<Rightarrow> (http_exception + add_response) \<times> 'd server" where
  "add_memory eng e s request =
     (let msgs = add_messages request;
          key = memory_key_of e request;
          data = \<lparr>messages = msgs, user_id = add_user_id request,
                  agent_id = add_agent_id request, session_id = add_session_id request,
                  metadata = add_metadata request\<rparr>
      in case store_short_term (redis_client s) key data (isoformat_now e) of
           (redis_stored, rc) \<Rightarrow>
             (let s1 = s\<lparr>redis_client := rc\<rparr>
              in case (if \<not> short_term_only request \<and> memory s1 \<noteq> None
                       then memory_add eng s1
                              \<lparr>a_messages = msgs, a_user_id = add_user_id request,
                               a_agent_id = add_agent_id request,
                               a_run_id = add_session_id request,
                               a_metadata = add_metadata request\<rparr>
                       else (None, s1)) of
                   (long_term_result, s2) \<Rightarrow>
                     (Inr \<lparr>success = True, short_term = redis_stored,
                           long_term = (long_term_result \<noteq> None),
                           memory_key = (if redis_stored then Some key else None),
                           result = long_term_result\<rparr>, s2)))"

subsection \<open>search\<close>

record search_request =
  s_query :: string
  s_user_id :: "string option"
  s_agent_id :: "string option"
  s_session_id :: "string option"
  s_limit :: int
  s_include_short_term :: bool

record memory_response =
  r_id :: string
  r_memory :: string
  r_user_id :: "string option"
  r_agent_id :: "string option"
  score :: "py_float option"
  source :: string
  r_metadata :: "metadata option"

record search_response =
  memories :: "memory_response list"
  count :: nat
  sources_short_term :: nat
  sources_long_term :: nat

definition message_part :: "message \<Rightarrow> string list" where
  "message_part msg =
     (if role msg = ''user'' \<and> content msg \<noteq> [] then [''User said: '' @ content msg]
      else if role msg = ''assistant'' \<and> content msg \<noteq> []
        then [''Assistant said: '' @ content msg]
      else [])"

definition format_messages_as_memory :: "message list \<Rightarrow> string" where
  "format_messages_as_memory msgs =
     (if msgs = [] then py_str_messages msgs
      else (let parts = concat (map message_part msgs)
            in if parts \<noteq> [] then py_join '' | '' parts else py_str_messages msgs))"

definition keyword_match :: "string \<Rightarrow> entry \<Rightarrow> bool" where
  "keyword_match query stm =
     (let query_lower = py_lower query;
          content = py_lower (py_str_messages (messages stm))
      in py_in query_lower content \<or> list_ex (\<lambda>word. py_in word content) (py_split query_lower))"

definition short_term_response :: "entry \<Rightarrow> memory_response" where
  "short_term_response stm =
     \<lparr>r_id = ''stm:'' @ py_format_opt (user_id stm) @ '':'' @ created_at stm,
      r_memory = format_messages_as_memory (messages stm),
      r_user_id = user_id stm, r_agent_id = agent_id stm,
      score = Some (Finite (8 / 10)), source = ''short_term'', r_metadata = metadata stm\<rparr>"

definition long_term_response :: "ltm_hit \<Rightarrow> memory_response" where
  "long_term_response r =
     \<lparr>r_id = h_id r, r_memory = h_memory r, r_user_id = h_user_id r,
      r_agent_id = h_agent_id r, score = h_score r, source = ''long_term'',
      r_metadata = h_metadata r\<rparr>"

text \<open>A keyword argument is passed to \<open>memory.search\<close> only when it is truthy.\<close>

definition py_truthy :: "string option \<Rightarrow> string option" where
  "py_truthy x = (case x of None \<Rightarrow> None | Some s \<Rightarrow> if s = [] then None else Some s)"

text \<open>
  The sort key \<open>x.score or 0\<close>: a missing score and a score of zero give 0; every
  other float is truthy, so a NaN score is the key NaN.
\<close>

definition score_or_0 :: "memory_response \<Rightarrow> py_float" where
  "score_or_0 x =
     (case score x of None \<Rightarrow> Finite 0 | Some v \<Rightarrow> if v = Finite 0 then Finite 0 else v)"

text \<open>
  \<open>list.sort(key=..., reverse=True)\<close>. When no key is NaN the keys are totally
  ordered: the list is sorted by descending key and the sort is stable, entries with
  equal keys keep their order. \<open>desc_rank\<close> orders the keys from the largest down.
  When a key is NaN the comparisons made by the sort are not an order, and the
  arrangement that results depends on the sorting algorithm of the interpreter, which is
  not part of this program: it is the parameter \<open>nan_sort\<close>.
\<close>

fun desc_rank :: "py_float \<Rightarrow> nat \<times> rat" where
  "desc_rank PosInf = (0, 0)"
| "desc_rank (Finite x) = (1, - x)"
| "desc_rank NegInf = (2, 0)"
| "desc_rank NaN = (3, 0)"

definition py_sort_reverse ::
  "('a list \<Rightarrow> 'a list) \<Rightarrow> ('a \<Rightarrow> py_float) \<Rightarrow> 'a list \<Rightarrow> 'a list" where
  "py_sort_reverse nan_sort key xs =
     (if list_ex (\<lambda>x. key x = NaN) xs then nan_sort xs
      else sort_key (\<lambda>x. desc_rank (key x)) xs)"

definition search_short_term ::
  "'d server \<Rightarrow> search_request \<Rightarrow> memory_response list \<times> 'd server" where
  "search_short_term s request =
     (if s_include_short_term request \<and> redis_client s \<noteq> None
      then (case get_short_term (redis_client s) (py_or (s_user_id request) ''*'') of
              (stms, rc) \<Rightarrow>
                (map short_term_response (filter (keyword_match (s_query request)) stms),
                 s\<lparr>redis_client := rc\<rparr>))
      else ([], s))"

definition search_long_term ::
  "'d engine \<Rightarrow> 'd server \<Rightarrow> search_request \<Rightarrow> memory_response list" where
  "search_long_term eng s request =
     (case memory s of
        None \<Rightarrow> []
      | Some d \<Rightarrow>
          (case mem0_search eng d
                  \<lparr>q_query = s_query request, q_limit = s_limit request,
                   q_user_id = py_truthy (s_user_id request),
                   q_agent_id = py_truthy (s_agent_id request),
                   q_run_id = py_truthy (s_session_id request)\<rparr> of
             None \<Rightarrow> []
           | Some hits \<Rightarrow> map long_term_response hits))"

definition search_memories ::
  "(memory_response list \<Rightarrow> memory_response list) \<Rightarrow> 'd engine \<Rightarrow> 'd server
     \<Rightarrow> search_request \<Rightarrow> (http_exception + search_response) \<times> 'd server" where
  "search_memories nan_sort eng s request =
     (case search_short_term s request of
        (stm_results, s1) \<Rightarrow>
          (let results = py_sort_reverse nan_sort score_or_0
                           (stm_results @ search_long_term eng s1 request);
               final = py_slice_to (s_limit request) results
           in (Inr \<lparr>memories = final, count = length final,
                    sources_short_term = length (filter (\<lambda>r. source r = ''short_term'') final),
                    sources_long_term = length (filter (\<lambda>r. source r = ''long_term'') final)\<rparr>,
               s1)))"

subsection \<open>promote\<close>

record promote_request =
  memory_ids :: "string list option"
  p_user_id :: "string option"
  p_agent_id :: "string option"

record promoted_item =
  original_key :: string
  promo_result :: add_result

record promote_response =
  promoted_count :: nat
  promoted :: "promoted_item list"

definition promote_args :: "promotable \<Rightarrow> add_args" where
  "promote_args m =
     \<lparr>a_messages = messages (mem m), a_user_id = user_id (mem m),
      a_agent_id = agent_id (mem m), a_run_id = session_id (mem m),
      a_metadata = metadata (mem m)\<rparr>"

fun promote_loop ::
  "'d engine \<Rightarrow> 'd server \<Rightarrow> promotable list \<Rightarrow> promoted_item list
     \<Rightarrow> promoted_item list \<times> 'd server" where
  "promote_loop eng s [] acc = (acc, s)"
| "promote_loop eng s (m # ms) acc =
     (case memory_add eng s (promote_args m) of
        (None, s1) \<Rightarrow> promote_loop eng s1 ms acc
      | (Some res, s1) \<Rightarrow>
          (let item = \<lparr>original_key = redis_key m, promo_result = res\<rparr>
           in case redis_client s1 of
                None \<Rightarrow> promote_loop eng s1 ms (acc @ [item])
              | Some r \<Rightarrow>
                  (if redis_key m = [] then promote_loop eng s1 ms (acc @ [item])
                   else (case redis_delete r (redis_key m) of
                           (None, r') \<Rightarrow>
                             promote_loop eng (s1\<lparr>redis_client := Some r'\<rparr>) ms acc
                         | (Some _, r') \<Rightarrow>
                             promote_loop eng (s1\<lparr>redis_client := Some r'\<rparr>) ms
                               (acc @ [item])))))"

definition promote_memories ::
  "'d engine \<Rightarrow> 'd server \<Rightarrow> promote_request
     \<Rightarrow> (http_exception + promote_response) \<times> 'd server" where
  "promote_memories eng s request =
     (case memory s of
        None \<Rightarrow> (Inl (HTTPException 503 ''Long-term memory not initialized''), s)
      | Some _ \<Rightarrow>
          (case get_promotable_memories (redis_client s) (p_user_id request) of
             (promotable, rc) \<Rightarrow>
               (case promote_loop eng (s\<lparr>redis_client := rc\<rparr>) promotable [] of
                  (items, s') \<Rightarrow>
                    (Inr \<lparr>promoted_count = length items, promoted = items\<rparr>, s'))))"

subsection \<open>memories of a user\<close>

record user_memory =
  um_id :: string
  um_memory :: string
  um_source :: string
  um_access_count :: int
  um_created_at :: string

record user_memories_response =
  um_memories :: "(user_memory + ltm_item) list"
  um_user_id :: string

definition user_short_term :: "string \<Rightarrow> entry \<Rightarrow> user_memory" where
  "user_short_term uid stm =
     \<lparr>um_id = ''stm:'' @ uid @ '':'' @ created_at stm,
      um_memory = format_messages_as_memory (messages stm),
      um_source = ''short_term'', um_access_count = access_count stm,
      um_created_at = created_at stm\<rparr>"

definition get_user_memories ::
  "'d engine \<Rightarrow> 'd server \<Rightarrow> string \<Rightarrow> int \<Rightarrow> bool
     \<Rightarrow> (http_exception + user_memories_response) \<times> 'd server" where
  "get_user_memories eng s uid limit include_short_term =
     (case (if include_short_term
            then (case get_short_term (redis_client s) uid of
                    (stms, rc) \<Rightarrow>
                      (map (user_short_term uid) stms, s\<lparr>redis_client := rc\<rparr>))
            else ([], s)) of
        (short_results, s1) \<Rightarrow>
          (let long_results =
                 (case memory s1 of
                    None \<Rightarrow> []
                  | Some d \<Rightarrow> (case mem0_get_all eng d uid limit of
                                 None \<Rightarrow> [] | Some items \<Rightarrow> items))
           in (Inr \<lparr>um_memories = map Inl short_results @ map Inr long_results,
                    um_user_id = uid\<rparr>, s1)))"

section \<open>Concrete states\<close>

text \<open>
  A small engine, clock and store on which the theorems below are run. The engine keeps
  the list of the memories it holds; its \<open>add\<close> raises on an empty message list and
  otherwise stores a hit with score one half; its \<open>search\<close> returns all it holds.
\<close>

definition hit_of :: "add_args \<Rightarrow> ltm_hit" where
  "hit_of a =
     \<lparr>h_id = ''ltm'', h_memory = format_messages_as_memory (a_messages a),
      h_user_id = a_user_id a, h_agent_id = a_agent_id a, h_score = Some (Finite (1 / 2)),
      h_metadata = a_metadata a\<rparr>"

definition sample_engine :: "ltm_hit list engine" where
  "sample_engine =
     \<lparr>mem0_add = (\<lambda>d a. if a_messages a = [] then (None, d)
                          else (Some ''added'', d @ [hit_of a])),
      mem0_search = (\<lambda>d q. Some d),
      mem0_get_all = (\<lambda>d u l. Some [])\<rparr>"

definition sample_env :: env where
  "sample_env =
     \<lparr>strftime_now = ''20240101000000'', isoformat_now = ''2024-01-01T00:00:00.000001'',
      md5_hex8 = (\<lambda>s. ''0a1b2c3d'')\<rparr>"

definition sample_entry :: "string \<Rightarrow> string \<Rightarrow> int \<Rightarrow> entry" where
  "sample_entry uid text n =
     \<lparr>messages = [\<lparr>role = ''user'', content = text\<rparr>], user_id = Some uid,
      agent_id = None, session_id = None, metadata = None,
      created_at = ''2024-01-01T00:00:00.000001'', access_count = n\<rparr>"

definition sample_add :: "string \<Rightarrow> string \<Rightarrow> bool \<Rightarrow> add_memory_request" where
  "sample_add uid text st_only =
     \<lparr>add_messages = [\<lparr>role = ''user'', content = text\<rparr>], add_user_id = Some uid,
      add_agent_id = None, add_session_id = None, add_metadata = None,
      short_term_only = st_only\<rparr>"

definition sample_server :: "(string \<times> entry) list \<Rightarrow> bool list \<Rightarrow> ltm_hit list server" where
  "sample_server store fs =
     \<lparr>redis_client = Some \<lparr>kv = store, faults = fs\<rparr>, memory = Some [], add_calls = []\<rparr>"

section \<open>Results\<close>

subsection \<open>add\<close>

text \<open>
  C5. An add request with \<open>short_term_only\<close> set never invokes the engine's \<open>add\<close>:
  the record of invocations and the engine's state are as before, and the response has
  \<open>long_term\<close> false.
\<close>

theorem add_short_term_only:
  assumes "short_term_only request"
  shows "\<exists>resp s'. add_memory eng e s request = (Inr resp, s') \<and> \<not> long_term resp \<and>
           result resp = None \<and> add_calls s' = add_calls s \<and> memory s' = memory s"
  using assms by (simp add: add_memory_def Let_def split: prod.splits)

theorem add_short_term_only_witness:
  "short_term_only (sample_add ''u1'' ''I like tea'' True) \<and>
   (\<exists>resp s'. add_memory sample_engine sample_env (sample_server [] [])
                  (sample_add ''u1'' ''I like tea'' True) = (Inr resp, s') \<and>
      \<not> long_term resp \<and> result resp = None \<and> add_calls s' = [] \<and> memory s' = Some [])"
proof -
  have h: "short_term_only (sample_add ''u1'' ''I like tea'' True)"
    by (simp add: sample_add_def)
  show ?thesis
    using h add_short_term_only [OF h, of sample_engine sample_env "sample_server [] []"]
    by (simp add: sample_server_def)
qed

text \<open>
  C6. Every add request returns a response, never an error, with \<open>success\<close> true.
  \<open>short_term\<close> is true exactly when the Redis client exists and its write did not
  raise, so a failed ephemeral write is reported as \<open>short_term\<close> false; \<open>long_term\<close>
  is true exactly when the request is not short-term-only, the engine exists and its
  \<open>add\<close> did not raise, so a failed durable write is reported as \<open>long_term\<close> false.
\<close>

theorem add_never_raises:
  "\<exists>resp s'. add_memory eng e s request = (Inr resp, s') \<and> success resp \<and>
     (short_term resp \<longleftrightarrow>
        (case redis_client s of None \<Rightarrow> False | Some r \<Rightarrow> \<not> fst (next_fault r))) \<and>
     (long_term resp \<longleftrightarrow> \<not> short_term_only request \<and>
        (case memory s of
           None \<Rightarrow> False
         | Some d \<Rightarrow>
             fst (mem0_add eng d
                    \<lparr>a_messages = add_messages request, a_user_id = add_user_id request,
                     a_agent_id = add_agent_id request, a_run_id = add_session_id request,
                     a_metadata = add_metadata request\<rparr>) \<noteq> None))"
  by (auto simp add: add_memory_def Let_def store_short_term_def redis_set_def memory_add_def
        split: prod.splits option.splits if_splits)

text \<open>
  Both tiers failing at once: the Redis write raises and the engine rejects the empty
  message list; the response still has \<open>success\<close> true and both flags false.
\<close>

definition failing_add :: add_memory_request where
  "failing_add =
     \<lparr>add_messages = [], add_user_id = Some ''u1'', add_agent_id = None,
      add_session_id = None, add_metadata = None, short_term_only = False\<rparr>"

theorem add_never_raises_witness:
  "\<exists>resp s'. add_memory sample_engine sample_env (sample_server [] [True]) failing_add
                 = (Inr resp, s') \<and>
     success resp \<and> \<not> short_term resp \<and> \<not> long_term resp"
  using add_never_raises [of sample_engine sample_env "sample_server [] [True]" failing_add]
  by (simp add: sample_server_def sample_engine_def failing_add_def next_fault_def)

subsection \<open>promote without an engine\<close>

text \<open>
  C7. A promote request issued while the engine was never initialised fails with
  status 503 and returns the server state as it was: no ephemeral entry is removed or
  modified.
\<close>

theorem promote_unavailable:
  assumes "memory s = None"
  shows "promote_memories eng s request =
           (Inl (HTTPException 503 ''Long-term memory not initialized''), s)"
  using assms by (simp add: promote_memories_def)

definition server_without_engine :: "ltm_hit list server" where
  "server_without_engine =
     \<lparr>redis_client =
        Some \<lparr>kv = [(''stm:u1:20240101000000:0a1b2c3d'', sample_entry ''u1'' ''I like tea'' 5)],
              faults = []\<rparr>,
      memory = None, add_calls = []\<rparr>"

theorem promote_unavailable_witness:
  "memory server_without_engine = None \<and>
   promote_memories sample_engine server_without_engine
       \<lparr>memory_ids = None, p_user_id = Some ''u1'', p_agent_id = None\<rparr>
     = (Inl (HTTPException 503 ''Long-term memory not initialized''), server_without_engine)"
proof -
  have m: "memory server_without_engine = None"
    by (simp add: server_without_engine_def)
  show ?thesis using m promote_unavailable [OF m] by simp
qed

subsection \<open>search: the merge\<close>

lemma py_slice_to_is_take: "\<exists>m. py_slice_to n xs = take m xs"
  by (auto simp: py_slice_to_def)

lemma length_py_slice_to: "0 \<le> n \<Longrightarrow> int (length (py_slice_to n xs)) \<le> n"
  by (simp add: py_slice_to_def)

lemma length_py_slice_to_neg: "n < 0 \<Longrightarrow> length (py_slice_to n xs) = length xs - nat (- n)"
  by (simp add: py_slice_to_def)

lemma py_slice_to_all: "int (length xs) \<le> n \<Longrightarrow> py_slice_to n xs = xs"
  by (simp add: py_slice_to_def)

lemma py_float_ge_nan [simp]: "\<not> py_float_ge a NaN" "\<not> py_float_ge NaN b"
  by (cases a; simp)+

lemma desc_rank_le:
  "a \<noteq> NaN \<Longrightarrow> b \<noteq> NaN \<Longrightarrow> desc_rank a \<le> desc_rank b \<longleftrightarrow> py_float_ge a b"
  by (cases a; cases b) auto

lemma desc_rank_eq:
  "a \<noteq> NaN \<Longrightarrow> b \<noteq> NaN \<Longrightarrow> desc_rank a = desc_rank b \<longleftrightarrow> a = b"
  by (cases a; cases b) auto

lemma py_sort_reverse_no_nan:
  assumes "\<forall>x\<in>set xs. key x \<noteq> NaN"
  shows "py_sort_reverse nan_sort key xs = sort_key (\<lambda>x. desc_rank (key x)) xs"
  using assms by (auto simp: py_sort_reverse_def list_ex_iff)

lemma py_sort_reverse_set:
  assumes "\<forall>x\<in>set xs. key x \<noteq> NaN"
  shows "set (py_sort_reverse nan_sort key xs) = set xs"
    and "length (py_sort_reverse nan_sort key xs) = length xs"
  by (simp_all add: py_sort_reverse_no_nan [OF assms])

lemma py_sort_reverse_sorted:
  assumes nn: "\<forall>x\<in>set xs. key x \<noteq> NaN"
  shows "sorted_wrt (\<lambda>x y. py_float_ge (key x) (key y)) (py_sort_reverse nan_sort key xs)"
proof -
  let ?ys = "sort_key (\<lambda>x. desc_rank (key x)) xs"
  have "sorted (map (\<lambda>x. desc_rank (key x)) ?ys)"
    by (rule sorted_sort_key)
  then have a: "sorted_wrt (\<lambda>x y. desc_rank (key x) \<le> desc_rank (key y)) ?ys"
    by (simp add: sorted_map)
  have "sorted_wrt (\<lambda>x y. py_float_ge (key x) (key y)) ?ys"
    by (rule sorted_wrt_mono_rel [OF _ a]) (use nn in \<open>simp add: desc_rank_le\<close>)
  then show ?thesis
    by (simp add: py_sort_reverse_no_nan [OF nn])
qed

lemma py_sort_reverse_stable:
  assumes nn: "\<forall>x\<in>set xs. key x \<noteq> NaN"
  shows "filter (\<lambda>x. key x = k) (py_sort_reverse nan_sort key xs) = filter (\<lambda>x. key x = k) xs"
proof (cases "k = NaN")
  case True
  have "filter (\<lambda>x. key x = k) ys = []" if "set ys = set xs" for ys
    using that nn True by (simp add: filter_empty_conv)
  then show ?thesis
    using py_sort_reverse_set(1) [OF nn] by simp
next
  case False
  let ?ys = "sort_key (\<lambda>x. desc_rank (key x)) xs"
  have st: "filter (\<lambda>x. desc_rank (key x) = desc_rank k) ?ys
          = filter (\<lambda>x. desc_rank (key x) = desc_rank k) xs"
    by (rule sort_key_stable)
  have c: "filter (\<lambda>x. key x = k) ys = filter (\<lambda>x. desc_rank (key x) = desc_rank k) ys"
    if "set ys = set xs" for ys
    by (rule filter_cong) (use that nn False in \<open>simp_all add: desc_rank_eq\<close>)
  have "filter (\<lambda>x. key x = k) ?ys = filter (\<lambda>x. key x = k) xs"
    using c [of ?ys] c [of xs] st by simp
  then show ?thesis
    by (simp add: py_sort_reverse_no_nan [OF nn])
qed

text \<open>No arrangement of a list of two or more entries, one with key NaN, is in order.\<close>

lemma nan_never_sorted:
  assumes x: "x \<in> set ys" and k: "key x = NaN"
      and s: "sorted_wrt (\<lambda>x y. py_float_ge (key x) (key y)) ys"
  shows "ys = [x]"
proof -
  obtain us vs where ys: "ys = us @ x # vs"
    using x by (auto dest: split_list)
  have "us = []"
  proof (cases us)
    case (Cons u us')
    then show ?thesis using s k by (auto simp: ys sorted_wrt_append)
  qed simp
  moreover have "vs = []"
  proof (cases vs)
    case (Cons v vs')
    then show ?thesis using s k by (auto simp: ys sorted_wrt_append)
  qed simp
  ultimately show ?thesis by (simp add: ys)
qed

text \<open>
  A list whose classes of equal key are each ordered by \<open>P\<close> is ordered by \<open>P\<close> between
  any two elements of equal key.
\<close>

lemma sorted_wrt_from_classes:
  assumes "\<And>k. sorted_wrt P (filter (\<lambda>y. f y = k) ys)"
  shows "sorted_wrt (\<lambda>x y. f x = f y \<longrightarrow> P x y) ys"
  using assms
proof (induction ys)
  case Nil
  then show ?case by simp
next
  case (Cons y ys)
  have rest: "sorted_wrt P (filter (\<lambda>z. f z = k) ys)" for k
    using Cons.prems [of k] by (simp split: if_splits)
  have first: "P y z" if "z \<in> set ys" "f y = f z" for z
    using Cons.prems [of "f y"] that by simp
  from Cons.IH [OF rest] first show ?case by auto
qed

lemma ties_keep_tier_order:
  fixes eph dur :: "memory_response list"
  assumes e: "\<forall>x\<in>set eph. source x = ''short_term''"
      and d: "\<forall>x\<in>set dur. source x = ''long_term''"
      and nn: "\<forall>x\<in>set (eph @ dur). key x \<noteq> NaN"
  shows "sorted_wrt
           (\<lambda>x y. key x = key y \<longrightarrow> \<not> (source x = ''long_term'' \<and> source y = ''short_term''))
           (py_sort_reverse nan_sort key (eph @ dur))"
proof (rule sorted_wrt_from_classes)
  fix k
  let ?P = "\<lambda>x y :: memory_response. \<not> (source x = ''long_term'' \<and> source y = ''short_term'')"
  have a: "sorted_wrt ?P (filter (\<lambda>x. key x = k) eph)"
    by (rule sorted_wrt_mono_rel [of _ "\<lambda>_ _. True"]) (use e in auto)
  have b: "sorted_wrt ?P (filter (\<lambda>x. key x = k) dur)"
    by (rule sorted_wrt_mono_rel [of _ "\<lambda>_ _. True"]) (use d in auto)
  have "sorted_wrt ?P (filter (\<lambda>x. key x = k) eph @ filter (\<lambda>x. key x = k) dur)"
    using a b e by (auto simp: sorted_wrt_append)
  then show "sorted_wrt ?P (filter (\<lambda>y. key y = k) (py_sort_reverse nan_sort key (eph @ dur)))"
    by (simp add: py_sort_reverse_stable [OF nn])
qed

lemma search_short_term_source:
  "x \<in> set (fst (search_short_term s request))
     \<Longrightarrow> source x = ''short_term'' \<and> score x = Some (Finite (8 / 10))"
  by (auto simp: search_short_term_def short_term_response_def split: if_splits prod.splits)

lemma search_long_term_source:
  "x \<in> set (search_long_term eng s request) \<Longrightarrow> source x = ''long_term''"
  by (auto simp: search_long_term_def long_term_response_def split: option.splits)

lemma score_or_0_no_nan: "score x \<noteq> Some NaN \<Longrightarrow> score_or_0 x \<noteq> NaN"
  by (auto simp: score_or_0_def split: option.splits)

text \<open>The keys of a search are free of NaN as soon as the durable scores are.\<close>

lemma search_keys_no_nan:
  assumes "\<forall>x\<in>set (search_long_term eng (snd (search_short_term s request)) request).
             score x \<noteq> Some NaN"
  shows "\<forall>x\<in>set (fst (search_short_term s request)
                   @ search_long_term eng (snd (search_short_term s request)) request).
           score_or_0 x \<noteq> NaN"
proof
  fix x
  assume "x \<in> set (fst (search_short_term s request)
                     @ search_long_term eng (snd (search_short_term s request)) request)"
  then have "score x \<noteq> Some NaN"
    using assms search_short_term_source [of x s request] by auto
  then show "score_or_0 x \<noteq> NaN"
    by (rule score_or_0_no_nan)
qed

lemma search_memories_run:
  "search_memories nan_sort eng s request =
     (let final = py_slice_to (s_limit request)
                    (py_sort_reverse nan_sort score_or_0
                       (fst (search_short_term s request)
                        @ search_long_term eng (snd (search_short_term s request)) request))
      in (Inr \<lparr>memories = final, count = length final,
               sources_short_term = length (filter (\<lambda>r. source r = ''short_term'') final),
               sources_long_term = length (filter (\<lambda>r. source r = ''long_term'') final)\<rparr>,
          snd (search_short_term s request)))"
  by (simp add: search_memories_def Let_def split: prod.splits)

definition two_tea_store :: "(string \<times> entry) list" where
  "two_tea_store =
     [(''stm:u1:20240101000000:0a1b2c3d'', sample_entry ''u1'' ''I like tea'' 0),
      (''stm:u1:20240101000005:99887766'', sample_entry ''u1'' ''Green tea is best'' 0)]"

definition tea_search :: "int \<Rightarrow> search_request" where
  "tea_search n =
     \<lparr>s_query = ''tea'', s_user_id = Some ''u1'', s_agent_id = None,
      s_session_id = None, s_limit = n, s_include_short_term = True\<rparr>"

definition tied_hits :: "ltm_hit list" where
  "tied_hits =
     [\<lparr>h_id = ''a'', h_memory = ''tea at four'', h_user_id = Some ''u1'', h_agent_id = None,
       h_score = Some (Finite (8 / 10)), h_metadata = None\<rparr>,
      \<lparr>h_id = ''b'', h_memory = ''tea pot'', h_user_id = Some ''u1'', h_agent_id = None,
       h_score = Some (Finite (9 / 10)), h_metadata = None\<rparr>,
      \<lparr>h_id = ''c'', h_memory = ''tea cup'', h_user_id = Some ''u1'', h_agent_id = None,
       h_score = None, h_metadata = None\<rparr>]"

definition tied_server :: "ltm_hit list server" where
  "tied_server = (sample_server two_tea_store [])\<lparr>memory := Some tied_hits\<rparr>"

definition nan_hits :: "ltm_hit list" where
  "nan_hits =
     [\<lparr>h_id = ''a'', h_memory = ''tea at four'', h_user_id = Some ''u1'', h_agent_id = None,
       h_score = Some NaN, h_metadata = None\<rparr>,
      \<lparr>h_id = ''b'', h_memory = ''tea pot'', h_user_id = Some ''u1'', h_agent_id = None,
       h_score = Some (Finite (9 / 10)), h_metadata = None\<rparr>]"

definition nan_server :: "ltm_hit list server" where
  "nan_server = (sample_server [] [])\<lparr>memory := Some nan_hits\<rparr>"

text \<open>
  C1 as stated fails in two ways. With a negative limit, \<open>results[:-1]\<close> drops the last
  entry, so two ephemeral matches and limit \<open>-1\<close> give one memory, more than the limit.
  With a durable hit whose score is NaN, the scores of the result are not non-increasing:
  here the engine returns a hit of score NaN and a hit of score 0.9. Sorting two entries
  compares their keys once, the comparison with NaN is false, and the list is left as it
  is (\<open>nan_sort\<close> is the identity); and no arrangement at all of these two entries has
  non-increasing keys, because \<open>>=\<close> is false on NaN.
\<close>

theorem search_limit_and_nan_counterexample:
  "(\<exists>resp. fst (search_memories (\<lambda>xs. xs) sample_engine (sample_server two_tea_store [])
                  (tea_search (- 1))) = Inr resp \<and>
      length (memories resp) = 1 \<and>
      \<not> int (length (memories resp)) \<le> s_limit (tea_search (- 1))) \<and>
   (\<exists>resp. fst (search_memories (\<lambda>xs. xs) sample_engine nan_server (tea_search 10)) = Inr resp \<and>
      map score (memories resp) = [Some NaN, Some (Finite (9 / 10))] \<and>
      \<not> sorted_wrt (\<lambda>x y. py_float_ge (score_or_0 x) (score_or_0 y)) (memories resp) \<and>
      \<not> (\<exists>ys. set ys = set (memories resp) \<and>
                sorted_wrt (\<lambda>x y. py_float_ge (score_or_0 x) (score_or_0 y)) ys))"
proof -
  have a: "fst (search_memories (\<lambda>xs. xs) sample_engine (sample_server two_tea_store [])
                  (tea_search (- 1))) =
     Inr \<lparr>memories =
            [\<lparr>r_id = ''stm:u1:2024-01-01T00:00:00.000001'',
              r_memory = ''User said: I like tea'', r_user_id = Some ''u1'',
              r_agent_id = None, score = Some (Finite (8 / 10)),
              source = ''short_term'', r_metadata = None\<rparr>],
          count = 1, sources_short_term = 1, sources_long_term = 0\<rparr>"
    by code_simp
  let ?x = "\<lparr>r_id = ''a'', r_memory = ''tea at four'', r_user_id = Some ''u1'',
              r_agent_id = None, score = Some NaN,
              source = ''long_term'', r_metadata = None\<rparr>"
  let ?y = "\<lparr>r_id = ''b'', r_memory = ''tea pot'', r_user_id = Some ''u1'',
              r_agent_id = None, score = Some (Finite (9 / 10)),
              source = ''long_term'', r_metadata = None\<rparr>"
  have b: "fst (search_memories (\<lambda>xs. xs) sample_engine nan_server (tea_search 10)) =
     Inr \<lparr>memories = [?x, ?y], count = 2, sources_short_term = 0, sources_long_term = 2\<rparr>"
    by code_simp
  have kx: "score_or_0 ?x = NaN"
    by (simp add: score_or_0_def)
  have c: "\<not> sorted_wrt (\<lambda>x y. py_float_ge (score_or_0 x) (score_or_0 y)) [?x, ?y]"
    by (simp add: kx)
  have d: "\<not> (\<exists>ys. set ys = set [?x, ?y] \<and>
                sorted_wrt (\<lambda>x y. py_float_ge (score_or_0 x) (score_or_0 y)) ys)"
  proof
    assume "\<exists>ys. set ys = set [?x, ?y] \<and>
                sorted_wrt (\<lambda>x y. py_float_ge (score_or_0 x) (score_or_0 y)) ys"
    then obtain ys where ys: "set ys = set [?x, ?y]"
        and s: "sorted_wrt (\<lambda>x y. py_float_ge (score_or_0 x) (score_or_0 y)) ys"
      by blast
    have "?x \<in> set ys" using ys by simp
    then have "ys = [?x]"
      using kx s by (rule nan_never_sorted)
    then show False using ys by simp
  qed
  have first: "\<exists>resp. fst (search_memories (\<lambda>xs. xs) sample_engine
                            (sample_server two_tea_store []) (tea_search (- 1))) = Inr resp \<and>
      length (memories resp) = 1 \<and>
      \<not> int (length (memories resp)) \<le> s_limit (tea_search (- 1))"
    unfolding a by (simp add: tea_search_def)
  have second: "\<exists>resp. fst (search_memories (\<lambda>xs. xs) sample_engine nan_server (tea_search 10))
                         = Inr resp \<and>
      map score (memories resp) = [Some NaN, Some (Finite (9 / 10))] \<and>
      \<not> sorted_wrt (\<lambda>x y. py_float_ge (score_or_0 x) (score_or_0 y)) (memories resp) \<and>
      \<not> (\<exists>ys. set ys = set (memories resp) \<and>
                sorted_wrt (\<lambda>x y. py_float_ge (score_or_0 x) (score_or_0 y)) ys)"
    unfolding b using c d by simp
  show ?thesis
    using first second by (rule conjI)
qed

text \<open>
  C1, amended. Write \<open>eph\<close> for the ephemeral matches of the request and \<open>dur\<close> for the
  durable matches. Every entry of \<open>eph\<close> has source \<open>short_term\<close> and score 0.8, every
  entry of \<open>dur\<close> has source \<open>long_term\<close>, and the returned list is the slice
  \<open>[:limit]\<close> of what the sort with key \<open>score or 0\<close> makes of \<open>eph @ dur\<close>. With
  a limit that is not negative the list has at most limit entries. When no durable score
  is NaN, the sort is stable (the entries of each key keep their order), a negative limit
  drops that many entries from the end, the keys of the list never increase, and among
  entries of equal key no \<open>long_term\<close> entry stands before a \<open>short_term\<close> one.
\<close>

theorem search_merge:
  fixes eng :: "'d engine"
  defines "eph s request \<equiv> fst (search_short_term (s :: 'd server) request)"
      and "dur s request \<equiv> search_long_term eng (snd (search_short_term s request)) request"
  shows "\<exists>resp s'. search_memories nan_sort eng s request = (Inr resp, s') \<and>
     (\<forall>x\<in>set (eph s request).
        source x = ''short_term'' \<and> score x = Some (Finite (8 / 10))) \<and>
     (\<forall>x\<in>set (dur s request). source x = ''long_term'') \<and>
     memories resp =
       py_slice_to (s_limit request)
         (py_sort_reverse nan_sort score_or_0 (eph s request @ dur s request)) \<and>
     (0 \<le> s_limit request \<longrightarrow> int (length (memories resp)) \<le> s_limit request) \<and>
     ((\<forall>x\<in>set (dur s request). score x \<noteq> Some NaN) \<longrightarrow>
        (\<forall>k. filter (\<lambda>x. score_or_0 x = k)
                (py_sort_reverse nan_sort score_or_0 (eph s request @ dur s request))
              = filter (\<lambda>x. score_or_0 x = k) (eph s request @ dur s request)) \<and>
        (s_limit request < 0 \<longrightarrow>
           length (memories resp)
             = length (eph s request @ dur s request) - nat (- s_limit request)) \<and>
        sorted_wrt (\<lambda>x y. py_float_ge (score_or_0 x) (score_or_0 y)) (memories resp) \<and>
        sorted_wrt (\<lambda>x y. score_or_0 x = score_or_0 y \<longrightarrow>
                      \<not> (source x = ''long_term'' \<and> source y = ''short_term''))
          (memories resp))"
proof -
  let ?all = "eph s request @ dur s request"
  let ?sorted = "py_sort_reverse nan_sort score_or_0 ?all"
  let ?final = "py_slice_to (s_limit request) ?sorted"
  let ?ge = "\<lambda>x y. py_float_ge (score_or_0 x) (score_or_0 y)"
  let ?tie = "\<lambda>x y. score_or_0 x = score_or_0 y \<longrightarrow>
                   \<not> (source x = ''long_term'' \<and> source y = ''short_term'')"
  obtain m where m: "?final = take m ?sorted"
    using py_slice_to_is_take by blast
  have e: "\<forall>x\<in>set (eph s request).
             source x = ''short_term'' \<and> score x = Some (Finite (8 / 10))"
    unfolding eph_def using search_short_term_source by blast
  have d: "\<forall>x\<in>set (dur s request). source x = ''long_term''"
    unfolding dur_def using search_long_term_source by blast
  have run: "search_memories nan_sort eng s request =
        (Inr \<lparr>memories = ?final, count = length ?final,
              sources_short_term = length (filter (\<lambda>r. source r = ''short_term'') ?final),
              sources_long_term = length (filter (\<lambda>r. source r = ''long_term'') ?final)\<rparr>,
         snd (search_short_term s request))"
    by (simp add: search_memories_run eph_def dur_def Let_def)
  have len: "0 \<le> s_limit request \<longrightarrow> int (length ?final) \<le> s_limit request"
    using length_py_slice_to by blast
  have ordered: "(\<forall>k. filter (\<lambda>x. score_or_0 x = k) ?sorted
                        = filter (\<lambda>x. score_or_0 x = k) ?all) \<and>
        (s_limit request < 0 \<longrightarrow> length ?final = length ?all - nat (- s_limit request)) \<and>
        sorted_wrt ?ge ?final \<and> sorted_wrt ?tie ?final"
    if dn: "\<forall>x\<in>set (dur s request). score x \<noteq> Some NaN"
  proof -
    have nn: "\<forall>x\<in>set ?all. score_or_0 x \<noteq> NaN"
      using search_keys_no_nan [of eng s request] dn by (simp add: eph_def dur_def)
    have st: "\<forall>k. filter (\<lambda>x. score_or_0 x = k) ?sorted = filter (\<lambda>x. score_or_0 x = k) ?all"
      using py_sort_reverse_stable [OF nn] by blast
    have s1: "sorted_wrt ?ge ?final"
      unfolding m by (rule sorted_wrt_take) (rule py_sort_reverse_sorted [OF nn])
    have s2: "sorted_wrt ?tie ?final"
      unfolding m by (rule sorted_wrt_take) (rule ties_keep_tier_order [OF _ _ nn], use e d in auto)
    have "length ?sorted = length ?all"
      by (rule py_sort_reverse_set(2) [OF nn])
    then have neg: "s_limit request < 0 \<longrightarrow>
                      length ?final = length ?all - nat (- s_limit request)"
      using length_py_slice_to_neg [of "s_limit request" ?sorted] by simp
    show ?thesis
      using st neg s1 s2 by (intro conjI)
  qed
  have sel: "memories \<lparr>memories = ?final, count = length ?final,
              sources_short_term = length (filter (\<lambda>r. source r = ''short_term'') ?final),
              sources_long_term = length (filter (\<lambda>r. source r = ''long_term'') ?final)\<rparr>
             = ?final"
    by simp
  show ?thesis
    unfolding run
    apply (intro exI conjI)
         apply (rule refl)
        apply (rule e)
       apply (rule d)
      apply (rule sel)
     apply (unfold sel, rule len)
    apply (rule impI, erule ordered)
    done
qed

text \<open>
  One ephemeral tie with a durable hit of score 0.8: the two ephemeral entries come
  before it, after the durable hit of score 0.9; the hit without score has key 0 and
  falls outside the limit.
\<close>

theorem search_merge_witness:
  "0 \<le> s_limit (tea_search 4) \<and>
   list_all (\<lambda>x. score x \<noteq> Some NaN)
     (search_long_term sample_engine (snd (search_short_term tied_server (tea_search 4)))
        (tea_search 4)) \<and>
   (\<exists>resp s'. search_memories (\<lambda>xs. xs) sample_engine tied_server (tea_search 4)
                 = (Inr resp, s') \<and>
      map (\<lambda>x. (score_or_0 x, source x)) (memories resp) =
        [(Finite (9 / 10), ''long_term''), (Finite (8 / 10), ''short_term''),
         (Finite (8 / 10), ''short_term''), (Finite (8 / 10), ''long_term'')] \<and>
      int (length (memories resp)) \<le> 4 \<and>
      sorted_wrt (\<lambda>x y. py_float_ge (score_or_0 x) (score_or_0 y)) (memories resp))"
proof -
  have ev: "map (\<lambda>x. (score_or_0 x, source x))
              (memories (case fst (search_memories (\<lambda>xs. xs) sample_engine tied_server
                                     (tea_search 4))
                         of Inr resp \<Rightarrow> resp)) =
        [(Finite (9 / 10), ''long_term''), (Finite (8 / 10), ''short_term''),
         (Finite (8 / 10), ''short_term''), (Finite (8 / 10), ''long_term'')]"
    by code_simp
  have nn: "list_all (\<lambda>x. score x \<noteq> Some NaN)
     (search_long_term sample_engine (snd (search_short_term tied_server (tea_search 4)))
        (tea_search 4))"
    by code_simp
  have l: "s_limit (tea_search 4) = 4" by (simp add: tea_search_def)
  show ?thesis
    using search_merge [of "\<lambda>xs. xs" sample_engine tied_server "tea_search 4"] ev l nn
    by (auto simp: list_all_iff)
qed

subsection \<open>Glob patterns without special characters\<close>

text \<open>A string is plain when it has none of the characters \<open>*\<close>, \<open>?\<close>, \<open>[\<close> and backslash.\<close>

definition glob_plain :: "string \<Rightarrow> bool" where
  "glob_plain s = list_all (\<lambda>c. c \<notin> set [CHR ''*'', CHR ''?'', CHR ''['', CHR 0x5C]) s"

lemma glob_parse_plain: "glob_plain s \<Longrightarrow> glob_parse (s @ p) = map GLit s @ glob_parse p"
  by (induction s) (auto simp: glob_plain_def)

lemma glob_match_lits:
  "glob_match (map GLit s @ ts) k \<longleftrightarrow> (\<exists>k'. k = s @ k' \<and> glob_match ts k')"
proof (induction s arbitrary: k)
  case Nil
  then show ?case by simp
next
  case (Cons a s)
  then show ?case by (cases k) auto
qed

lemma glob_match_star:
  "glob_match (GStar # ts) k \<longleftrightarrow> (\<exists>a b. k = a @ b \<and> glob_match ts b)"
proof (induction k)
  case Nil
  then show ?case by simp
next
  case (Cons c k)
  show ?case
  proof
    assume "glob_match (GStar # ts) (c # k)"
    then consider "glob_match ts (c # k)" | "glob_match (GStar # ts) k" by auto
    then show "\<exists>a b. c # k = a @ b \<and> glob_match ts b"
    proof cases
      case 1
      then show ?thesis by (rule_tac x = "[]" in exI) simp
    next
      case 2
      then obtain a b where "k = a @ b" "glob_match ts b" using Cons.IH by blast
      then show ?thesis by (rule_tac x = "c # a" in exI) simp
    qed
  next
    assume "\<exists>a b. c # k = a @ b \<and> glob_match ts b"
    then obtain a b where ab: "c # k = a @ b" "glob_match ts b" by blast
    show "glob_match (GStar # ts) (c # k)"
    proof (cases a)
      case Nil
      with ab have "b = c # k" by simp
      with ab show ?thesis by simp
    next
      case (Cons a' as)
      with ab have "k = as @ b" by simp
      with ab Cons.IH show ?thesis by auto
    qed
  qed
qed

lemma glob_star_only: "glob_match [GStar] k"
  by (simp add: glob_match_star)

lemma glob_prefix_star:
  assumes "glob_plain s"
  shows "glob (s @ ''*'') k \<longleftrightarrow> prefix s k"
proof -
  have "glob_parse (s @ ''*'') = map GLit s @ [GStar]"
    using glob_parse_plain [OF assms, of "''*''"] by simp
  then show ?thesis
    by (auto simp: glob_def glob_match_lits glob_star_only prefix_def)
qed

lemma glob_any_owner:
  "glob (''stm:*:*'') k \<longleftrightarrow> (\<exists>a b. k = ''stm:'' @ a @ '':'' @ b)"
proof -
  have p: "glob_parse ''stm:*:*'' = map GLit ''stm:'' @ [GStar, GLit (CHR '':''), GStar]"
    by simp
  have "glob_match [GLit (CHR '':''), GStar] b \<longleftrightarrow> (\<exists>b'. b = CHR '':'' # b')" for b
    using glob_star_only by (cases b) auto
  then show ?thesis
    unfolding glob_def p glob_match_lits glob_match_star by auto
qed

subsection \<open>The eligibility scan\<close>

text \<open>With an empty schedule of faults every Redis command succeeds and leaves the schedule empty.\<close>

lemma next_fault_none [simp]: "faults r = [] \<Longrightarrow> next_fault r = (False, r)"
  by (simp add: next_fault_def)

lemma redis_keys_ok:
  "faults r = [] \<Longrightarrow> redis_keys r pat = (Some (filter (glob pat) (map fst (kv r))), r)"
  by (simp add: redis_keys_def)

lemma redis_get_ok: "faults r = [] \<Longrightarrow> redis_get r k = (Some (map_of (kv r) k), r)"
  by (simp add: redis_get_def)

lemma redis_set_ok:
  "faults r = [] \<Longrightarrow> redis_set r k v = (Some (), r\<lparr>kv := AList.update k v (kv r)\<rparr>)"
  by (simp add: redis_set_def)

lemma redis_delete_ok:
  "faults r = [] \<Longrightarrow> redis_delete r k = (Some (), r\<lparr>kv := AList.delete k (kv r)\<rparr>)"
  by (simp add: redis_delete_def)

definition eligible_at :: "redis \<Rightarrow> string \<Rightarrow> promotable list" where
  "eligible_at r k =
     (case map_of (kv r) k of
        None \<Rightarrow> []
      | Some e \<Rightarrow> if PROMOTION_THRESHOLD \<le> access_count e then [\<lparr>mem = e, redis_key = k\<rparr>] else [])"

lemma get_promotable_loop_ok:
  "faults r = [] \<Longrightarrow>
     get_promotable_loop r ks acc = (Some (acc @ concat (map (eligible_at r) ks)), r)"
  by (induction ks arbitrary: acc) (auto simp: redis_get_ok eligible_at_def split: option.splits)

lemma get_promotable_memories_ok:
  assumes "faults r = []"
  shows "get_promotable_memories (Some r) uid =
           (concat (map (eligible_at r)
              (filter (glob (''stm:'' @ py_or uid ''*'' @ '':*'')) (map fst (kv r)))), Some r)"
  using assms
  by (simp add: get_promotable_memories_def redis_keys_ok get_promotable_loop_ok
        SHORT_TERM_PREFIX_def)

lemma scan_pattern_any:
  "uid = None \<or> uid = Some [] \<Longrightarrow>
     glob (''stm:'' @ py_or uid ''*'' @ '':*'') k \<longleftrightarrow> (\<exists>a b. k = ''stm:'' @ a @ '':'' @ b)"
  using glob_any_owner [of k] by (auto simp: py_or_def)

lemma scan_pattern_owner:
  assumes "u \<noteq> []" "glob_plain u"
  shows "glob (''stm:'' @ py_or (Some u) ''*'' @ '':*'') k \<longleftrightarrow> prefix (''stm:'' @ u @ '':'') k"
proof -
  have "glob_plain (''stm:'' @ u @ '':'')"
    using assms by (simp add: glob_plain_def)
  from glob_prefix_star [OF this, of k] assms show ?thesis
    by (simp add: py_or_def)
qed


text \<open>The scan under any schedule of faults.\<close>

lemma redis_get_cases:
  "redis_get r k = (res, r') \<Longrightarrow> kv r' = kv r \<and> (res = None \<or> res = Some (map_of (kv r) k))"
  by (auto simp: redis_get_def next_fault_def split: list.splits if_splits)

lemma redis_keys_cases:
  "redis_keys r pat = (res, r') \<Longrightarrow>
     kv r' = kv r \<and> (res = None \<or> res = Some (filter (glob pat) (map fst (kv r))))"
  by (auto simp: redis_keys_def next_fault_def split: list.splits if_splits)

lemma get_promotable_loop_any:
  assumes "get_promotable_loop r ks acc = (res, r')"
  shows "kv r' = kv r \<and>
         (\<forall>ps. res = Some ps \<longrightarrow> ps = acc @ concat (map (eligible_at r) ks))"
  using assms
proof (induction ks arbitrary: r acc)
  case Nil
  then show ?case by auto
next
  case (Cons k ks)
  obtain g r1 where g: "redis_get r k = (g, r1)" by (cases "redis_get r k")
  from redis_get_cases [OF g] have kv1: "kv r1 = kv r" and gv: "g = None \<or> g = Some (map_of (kv r) k)"
    by simp_all
  have el: "eligible_at r1 = eligible_at r"
    using kv1 by (simp add: eligible_at_def fun_eq_iff)
  from gv show ?case
  proof
    assume "g = None"
    with Cons.prems g kv1 show ?thesis by simp
  next
    assume gs: "g = Some (map_of (kv r) k)"
    show ?thesis
    proof (cases "map_of (kv r) k")
      case None
      with Cons.prems g gs have "get_promotable_loop r1 ks acc = (res, r')" by simp
      from Cons.IH [OF this] None kv1 el show ?thesis by (simp add: eligible_at_def)
    next
      case (Some e)
      show ?thesis
      proof (cases "PROMOTION_THRESHOLD \<le> access_count e")
        case True
        with Cons.prems g gs Some
        have "get_promotable_loop r1 ks (acc @ [\<lparr>mem = e, redis_key = k\<rparr>]) = (res, r')" by simp
        from Cons.IH [OF this] Some True kv1 el show ?thesis by (simp add: eligible_at_def)
      next
        case False
        with Cons.prems g gs Some have "get_promotable_loop r1 ks acc = (res, r')" by simp
        from Cons.IH [OF this] Some False kv1 el show ?thesis by (simp add: eligible_at_def)
      qed
    qed
  qed
qed

lemma get_promotable_memories_any:
  assumes "get_promotable_memories (Some r) uid = (batch, rc)"
  shows "\<exists>r0. rc = Some r0 \<and> kv r0 = kv r \<and>
           (batch = [] \<or>
            batch = concat (map (eligible_at r)
                      (filter (glob (''stm:'' @ py_or uid ''*'' @ '':*'')) (map fst (kv r)))))"
proof -
  let ?pat = "''stm:'' @ py_or uid ''*'' @ '':*''"
  obtain ks r1 where k: "redis_keys r ?pat = (ks, r1)" by (cases "redis_keys r ?pat")
  from redis_keys_cases [OF k] have kv1: "kv r1 = kv r"
    and kc: "ks = None \<or> ks = Some (filter (glob ?pat) (map fst (kv r)))" by simp_all
  from kc show ?thesis
  proof
    assume "ks = None"
    with assms k kv1 show ?thesis
      by (auto simp: get_promotable_memories_def SHORT_TERM_PREFIX_def)
  next
    assume ks: "ks = Some (filter (glob ?pat) (map fst (kv r)))"
    obtain res r2 where l: "get_promotable_loop r1 (filter (glob ?pat) (map fst (kv r))) [] = (res, r2)"
      by (cases "get_promotable_loop r1 (filter (glob ?pat) (map fst (kv r))) []")
    have el: "eligible_at r1 = eligible_at r"
      using kv1 by (simp add: eligible_at_def fun_eq_iff)
    from get_promotable_loop_any [OF l] assms k ks l kv1 el show ?thesis
      by (auto simp: get_promotable_memories_def SHORT_TERM_PREFIX_def split: option.splits)
  qed
qed

text \<open>
  The scan calls KEYS once and then GET once for each key that KEYS reports. When one of
  these calls raises, the scan returns nothing.
\<close>

lemma get_promotable_loop_fault:
  "True \<in> set (take (length ks) (faults r)) \<Longrightarrow> fst (get_promotable_loop r ks acc) = None"
proof (induction ks arbitrary: r acc)
  case Nil
  then show ?case by simp
next
  case (Cons k ks)
  then obtain f fs where fs: "faults r = f # fs"
    by (cases "faults r") auto
  show ?case
  proof (cases f)
    case True
    then show ?thesis using fs by (simp add: redis_get_def next_fault_def)
  next
    case False
    let ?r1 = "r\<lparr>faults := fs\<rparr>"
    have g: "redis_get r k = (Some (map_of (kv r) k), ?r1)"
      using fs False by (simp add: redis_get_def next_fault_def)
    have "True \<in> set (take (length ks) (faults ?r1))"
      using Cons.prems fs False by simp
    from Cons.IH [OF this] show ?thesis
      by (simp add: g split: option.splits)
  qed
qed

lemma get_promotable_memories_fault:
  assumes "True \<in> set (take (Suc (length (filter (glob (''stm:'' @ py_or uid ''*'' @ '':*''))
                                         (map fst (kv r))))) (faults r))"
  shows "fst (get_promotable_memories (Some r) uid) = []"
proof -
  let ?pat = "''stm:'' @ py_or uid ''*'' @ '':*''"
  let ?ks = "filter (glob ?pat) (map fst (kv r))"
  from assms obtain f fs where fs: "faults r = f # fs"
    by (cases "faults r") auto
  show ?thesis
  proof (cases f)
    case True
    then show ?thesis
      using fs by (simp add: get_promotable_memories_def redis_keys_def next_fault_def
                     SHORT_TERM_PREFIX_def)
  next
    case False
    let ?r1 = "r\<lparr>faults := fs\<rparr>"
    have k: "redis_keys r ?pat = (Some ?ks, ?r1)"
      using fs False by (simp add: redis_keys_def next_fault_def)
    have "True \<in> set (take (length ?ks) (faults ?r1))"
      using assms fs False by simp
    from get_promotable_loop_fault [OF this, of "[]"]
    obtain r2 where l: "get_promotable_loop ?r1 ?ks [] = (None, r2)"
      by (cases "get_promotable_loop ?r1 ?ks []") auto
    show ?thesis
      using k l by (simp add: get_promotable_memories_def SHORT_TERM_PREFIX_def)
  qed
qed

lemma in_eligible_at:
  "p \<in> set (eligible_at r k) \<longleftrightarrow>
     redis_key p = k \<and> map_of (kv r) k = Some (mem p) \<and> PROMOTION_THRESHOLD \<le> access_count (mem p)"
  by (cases p) (auto simp: eligible_at_def split: option.splits)

lemma distinct_eligible:
  "distinct ks \<Longrightarrow> distinct (map redis_key (concat (map (eligible_at r) ks)))"
proof (induction ks)
  case Nil
  then show ?case by simp
next
  case (Cons k ks)
  have one: "distinct (map redis_key (eligible_at r k))"
    by (simp add: eligible_at_def split: option.splits)
  have apart: "redis_key p \<noteq> redis_key q"
    if "p \<in> set (eligible_at r k)" "q \<in> set (concat (map (eligible_at r) ks))" for p q
    using that Cons.prems by (auto simp: in_eligible_at)
  from Cons one apart show ?case by (auto simp: in_eligible_at)
qed

lemma glob_stm_nonempty: "glob (''stm:'' @ p) k \<Longrightarrow> k \<noteq> []"
  by (auto simp: glob_def)


lemma batch_facts:
  assumes "get_promotable_memories (Some r) uid = (batch, rc)"
      and "distinct (map fst (kv r))"
  shows "distinct (map redis_key batch) \<and>
         (\<forall>m\<in>set batch. redis_key m \<noteq> [] \<and> map_of (kv r) (redis_key m) = Some (mem m) \<and>
             glob (''stm:'' @ py_or uid ''*'' @ '':*'') (redis_key m) \<and>
             PROMOTION_THRESHOLD \<le> access_count (mem m))"
proof -
  let ?pat = "''stm:'' @ py_or uid ''*'' @ '':*''"
  let ?full = "concat (map (eligible_at r) (filter (glob ?pat) (map fst (kv r))))"
  have d: "distinct (map redis_key ?full)"
    using assms(2) by (intro distinct_eligible distinct_filter)
  have f: "redis_key m \<noteq> [] \<and> map_of (kv r) (redis_key m) = Some (mem m) \<and>
             glob ?pat (redis_key m) \<and> PROMOTION_THRESHOLD \<le> access_count (mem m)"
    if "m \<in> set ?full" for m
  proof -
    from that obtain k where k: "glob ?pat k" "m \<in> set (eligible_at r k)"
      by auto
    from k(2) have e: "redis_key m = k" "map_of (kv r) k = Some (mem m)"
      "PROMOTION_THRESHOLD \<le> access_count (mem m)"
      by (simp_all add: in_eligible_at)
    from k(1) have "k \<noteq> []" by (rule glob_stm_nonempty)
    with k(1) e show ?thesis by simp
  qed
  from get_promotable_memories_any [OF assms(1)] have "batch = [] \<or> batch = ?full" by blast
  then show ?thesis using d f by auto
qed

lemma add_key_any_owner:
  "glob ''stm:*:*'' (SHORT_TERM_PREFIX @ memory_key_of e request)"
  unfolding glob_any_owner memory_key_of_def SHORT_TERM_PREFIX_def
  by (intro exI [of _ "py_or (add_user_id request) ''anon''"]
        exI [of _ "strftime_now e @ '':'' @ md5_hex8 e (py_str_messages (add_messages request))"])
     simp

definition scan_store :: "(string \<times> entry) list" where
  "scan_store =
     [(''stm:u1:20240101000000:0a1b2c3d'', sample_entry ''u1'' ''I like tea'' 3),
      (''stm:u1:20240101000005:99887766'', sample_entry ''u1'' ''Green tea is best'' 2),
      (''stm:u10:20240101000007:11223344'', sample_entry ''u10'' ''Coffee at nine'' 5)]"

text \<open>
  C3 as stated fails when a Redis call raises during the scan: the \<open>except\<close> branch
  returns the empty list, so an entry of the owner with \<open>access_count\<close> 3 is not
  selected. Here KEYS succeeds and the first GET raises.
\<close>

theorem eligibility_scan_fault_counterexample:
  "(''stm:u1:20240101000000:0a1b2c3d'', sample_entry ''u1'' ''I like tea'' 3) \<in> set scan_store \<and>
   glob (SHORT_TERM_PREFIX @ py_or (Some ''u1'') ''*'' @ '':*'') ''stm:u1:20240101000000:0a1b2c3d'' \<and>
   PROMOTION_THRESHOLD \<le> access_count (sample_entry ''u1'' ''I like tea'' 3) \<and>
   fst (get_promotable_memories (Some \<lparr>kv = scan_store, faults = [False, True]\<rparr>) (Some ''u1'')) = []"
  by code_simp

text \<open>
  C3, amended. The store holds one entry per key. Whatever the scan selects is an entry
  of the store whose key matches the owner pattern and whose \<open>access_count\<close> is at
  least the threshold, which is 3. When no Redis call raises during the scan, it selects
  exactly those entries. The owner pattern is \<open>stm:{owner}:*\<close>: for an owner without
  glob characters it matches the keys that begin with \<open>stm:{owner}:\<close>; with no owner
  (or an empty one) it is \<open>stm:*:*\<close>, which matches every key with a colon after the
  prefix, so every key that an add writes. A scan during which a Redis call raises
  returns nothing: its calls are KEYS and one GET for each key that matches the pattern,
  and they take the first entries of the schedule of faults.
\<close>

theorem eligibility_scan:
  assumes "distinct (map fst (kv r))"
  shows "(p \<in> set (fst (get_promotable_memories (Some r) uid)) \<longrightarrow>
            (redis_key p, mem p) \<in> set (kv r) \<and>
            glob (''stm:'' @ py_or uid ''*'' @ '':*'') (redis_key p) \<and>
            3 \<le> access_count (mem p)) \<and>
         (faults r = [] \<longrightarrow>
            (p \<in> set (fst (get_promotable_memories (Some r) uid)) \<longleftrightarrow>
               (redis_key p, mem p) \<in> set (kv r) \<and>
               glob (''stm:'' @ py_or uid ''*'' @ '':*'') (redis_key p) \<and>
               3 \<le> access_count (mem p))) \<and>
         PROMOTION_THRESHOLD = 3 \<and>
         (uid = None \<or> uid = Some [] \<longrightarrow>
            (glob (''stm:'' @ py_or uid ''*'' @ '':*'') k \<longleftrightarrow>
               (\<exists>a b. k = ''stm:'' @ a @ '':'' @ b)) \<and>
            glob (''stm:'' @ py_or uid ''*'' @ '':*'') (SHORT_TERM_PREFIX @ memory_key_of e request)) \<and>
         (\<forall>u. uid = Some u \<and> u \<noteq> [] \<and> glob_plain u \<longrightarrow>
            (glob (''stm:'' @ py_or uid ''*'' @ '':*'') k \<longleftrightarrow> prefix (''stm:'' @ u @ '':'') k)) \<and>
         (True \<in> set (take (Suc (length (filter (glob (''stm:'' @ py_or uid ''*'' @ '':*''))
                                         (map fst (kv r)))))
                         (faults r)) \<longrightarrow>
            fst (get_promotable_memories (Some r) uid) = [])"
proof -
  let ?pat = "''stm:'' @ py_or uid ''*'' @ '':*''"
  let ?crit = "(redis_key p, mem p) \<in> set (kv r) \<and> glob ?pat (redis_key p) \<and>
               3 \<le> access_count (mem p)"
  obtain batch rc where scan: "get_promotable_memories (Some r) uid = (batch, rc)"
    by (cases "get_promotable_memories (Some r) uid")
  have sound: ?crit if "p \<in> set (fst (get_promotable_memories (Some r) uid))"
  proof -
    from that scan have "p \<in> set batch" by simp
    with batch_facts [OF scan assms]
    have f: "map_of (kv r) (redis_key p) = Some (mem p)" "glob ?pat (redis_key p)"
      "PROMOTION_THRESHOLD \<le> access_count (mem p)"
      by simp_all
    from f(1) have "(redis_key p, mem p) \<in> set (kv r)" by (rule map_of_SomeD)
    with f(2) f(3) show ?thesis by (simp add: PROMOTION_THRESHOLD_def)
  qed
  have complete: "p \<in> set (fst (get_promotable_memories (Some r) uid))"
    if nf: "faults r = []" and c: ?crit
  proof -
    from c assms have "map_of (kv r) (redis_key p) = Some (mem p)" by simp
    with c have "p \<in> set (eligible_at r (redis_key p))"
      by (simp add: in_eligible_at PROMOTION_THRESHOLD_def)
    moreover from c have "redis_key p \<in> set (map fst (kv r))" by force
    ultimately show ?thesis
      using c by (force simp: get_promotable_memories_ok [OF nf])
  qed
  have any: "glob ?pat (SHORT_TERM_PREFIX @ memory_key_of e request)"
    if "uid = None \<or> uid = Some []"
    using that add_key_any_owner [of e request] by (auto simp: py_or_def)
  have owner: "glob ?pat k \<longleftrightarrow> prefix (''stm:'' @ u @ '':'') k"
    if "uid = Some u \<and> u \<noteq> [] \<and> glob_plain u" for u
    using that scan_pattern_owner [of u k] by simp
  have iff: "p \<in> set (fst (get_promotable_memories (Some r) uid)) \<longleftrightarrow> ?crit"
    if "faults r = []"
    using sound complete [OF that] by blast
  have pt: "PROMOTION_THRESHOLD = 3" by (simp add: PROMOTION_THRESHOLD_def)
  have anyk: "glob ?pat k \<longleftrightarrow> (\<exists>a b. k = ''stm:'' @ a @ '':'' @ b)"
    if "uid = None \<or> uid = Some []"
    using scan_pattern_any [OF that] .
  have c1: "p \<in> set (fst (get_promotable_memories (Some r) uid)) \<longrightarrow> ?crit"
    using sound by blast
  have c2: "faults r = [] \<longrightarrow>
              (p \<in> set (fst (get_promotable_memories (Some r) uid)) \<longleftrightarrow> ?crit)"
    using iff by blast
  have c4: "uid = None \<or> uid = Some [] \<longrightarrow>
              (glob ?pat k \<longleftrightarrow> (\<exists>a b. k = ''stm:'' @ a @ '':'' @ b)) \<and>
              glob ?pat (SHORT_TERM_PREFIX @ memory_key_of e request)"
    using anyk any by blast
  have c5: "\<forall>u. uid = Some u \<and> u \<noteq> [] \<and> glob_plain u \<longrightarrow>
              (glob ?pat k \<longleftrightarrow> prefix (''stm:'' @ u @ '':'') k)"
    using owner by blast
  have c6: "True \<in> set (take (Suc (length (filter (glob ?pat) (map fst (kv r))))) (faults r)) \<longrightarrow>
              fst (get_promotable_memories (Some r) uid) = []"
    using get_promotable_memories_fault by blast
  from c1 c2 pt c4 c5 c6 show ?thesis by (intro conjI)
qed

text \<open>
  Three entries: the scan for \<open>u1\<close> selects the entry of \<open>u1\<close> with count 3, and
  neither the entry of \<open>u1\<close> with count 2 nor the entry of \<open>u10\<close> with count 5.
  Two keys match the pattern, so the scan makes three calls; when the second one raises
  the scan returns nothing.
\<close>

theorem eligibility_scan_witness:
  "distinct (map fst (kv \<lparr>kv = scan_store, faults = []\<rparr>)) \<and>
   faults \<lparr>kv = scan_store, faults = []\<rparr> = [] \<and>
   fst (get_promotable_memories (Some \<lparr>kv = scan_store, faults = []\<rparr>) (Some ''u1'')) =
     [\<lparr>mem = sample_entry ''u1'' ''I like tea'' 3,
       redis_key = ''stm:u1:20240101000000:0a1b2c3d''\<rparr>] \<and>
   length (filter (glob (''stm:'' @ py_or (Some ''u1'') ''*'' @ '':*'')) (map fst scan_store)) = 2 \<and>
   True \<in> set (take 3 [False, True]) \<and>
   fst (get_promotable_memories (Some \<lparr>kv = scan_store, faults = [False, True]\<rparr>)
          (Some ''u1'')) = []"
proof -
  have n: "length (filter (glob (''stm:'' @ py_or (Some ''u1'') ''*'' @ '':*''))
                     (map fst scan_store)) = 2"
    by code_simp
  have d2: "distinct (map fst (kv \<lparr>kv = scan_store, faults = [False, True]\<rparr>))"
    by (simp add: scan_store_def)
  have ft: "True \<in> set (take (Suc (length (filter (glob (''stm:'' @ py_or (Some ''u1'') ''*'' @ '':*''))
                (map fst (kv \<lparr>kv = scan_store, faults = [False, True]\<rparr>)))))
              (faults \<lparr>kv = scan_store, faults = [False, True]\<rparr>))"
    using n by simp
  have none: "fst (get_promotable_memories (Some \<lparr>kv = scan_store, faults = [False, True]\<rparr>)
                     (Some ''u1'')) = []"
    using eligibility_scan [OF d2, of _ "Some ''u1''"] ft by blast
  have d: "distinct (map fst (kv \<lparr>kv = scan_store, faults = []\<rparr>))"
    by (simp add: scan_store_def)
  have ev: "fst (get_promotable_memories (Some \<lparr>kv = scan_store, faults = []\<rparr>) (Some ''u1'')) =
     [\<lparr>mem = sample_entry ''u1'' ''I like tea'' 3,
       redis_key = ''stm:u1:20240101000000:0a1b2c3d''\<rparr>]"
    by code_simp
  show ?thesis
    using d ev n none
      eligibility_scan [OF d,
        of "\<lparr>mem = sample_entry ''u1'' ''I like tea'' 3,
             redis_key = ''stm:u1:20240101000000:0a1b2c3d''\<rparr>" "Some ''u1''"]
    by simp
qed

subsection \<open>promote: a batch\<close>

text \<open>
  What the engine does with a batch does not depend on Redis: \<open>add_results\<close> pairs
  each record with the outcome of its \<open>memory.add\<close> (\<open>None\<close> when it raised),
  the engine being run through the batch in order; \<open>engine_run\<close> is the engine's
  state after the batch. \<open>promoted_of\<close> is the response item of a record whose add
  succeeded. \<open>entries_kept before after\<close> says that every entry of the store after
  is an entry of the store before, unchanged.
\<close>

fun add_results :: "'d engine \<Rightarrow> 'd \<Rightarrow> promotable list \<Rightarrow> (promotable \<times> add_result option) list" where
  "add_results eng d [] = []"
| "add_results eng d (m # ms) =
     (case mem0_add eng d (promote_args m) of (res, d') \<Rightarrow> (m, res) # add_results eng d' ms)"

fun engine_run :: "'d engine \<Rightarrow> 'd \<Rightarrow> promotable list \<Rightarrow> 'd" where
  "engine_run eng d [] = d"
| "engine_run eng d (m # ms) = engine_run eng (snd (mem0_add eng d (promote_args m))) ms"

definition promoted_of :: "promotable \<times> add_result option \<Rightarrow> promoted_item list" where
  "promoted_of x =
     (case snd x of None \<Rightarrow> [] | Some res \<Rightarrow> [\<lparr>original_key = redis_key (fst x), promo_result = res\<rparr>])"

definition entries_kept :: "(string \<times> entry) list \<Rightarrow> (string \<times> entry) list \<Rightarrow> bool" where
  "entries_kept before after \<longleftrightarrow> (\<forall>k e. map_of after k = Some e \<longrightarrow> map_of before k = Some e)"

text \<open>
  The loop calls Redis only to delete, once for each record whose add succeeded and
  whose key is not empty, in the order of the batch. \<open>delete_raised eng d fs ms\<close>
  lists the records whose add succeeded and whose delete then raised, \<open>fs\<close> being
  the schedule of faults when the loop starts.
\<close>

fun delete_raised :: "'d engine \<Rightarrow> 'd \<Rightarrow> bool list \<Rightarrow> promotable list \<Rightarrow> promotable list" where
  "delete_raised eng d fs [] = []"
| "delete_raised eng d fs (m # ms) =
     (case mem0_add eng d (promote_args m) of
        (None, d') \<Rightarrow> delete_raised eng d' fs ms
      | (Some res, d') \<Rightarrow>
          (if redis_key m = [] then delete_raised eng d' fs ms
           else (case fs of
                   [] \<Rightarrow> delete_raised eng d' [] ms
                 | f # fs' \<Rightarrow> (if f then [m] else []) @ delete_raised eng d' fs' ms)))"

lemma entries_kept_refl: "entries_kept a a"
  by (simp add: entries_kept_def)

lemma entries_kept_trans: "entries_kept a b \<Longrightarrow> entries_kept b c \<Longrightarrow> entries_kept a c"
  by (simp add: entries_kept_def)

lemma entries_kept_delete: "entries_kept a (AList.delete k a)"
  by (auto simp: entries_kept_def delete_conv' split: if_splits)

lemma redis_delete_cases:
  "redis_delete r k = (res, r') \<Longrightarrow>
     (res = None \<and> kv r' = kv r) \<or> (res = Some () \<and> kv r' = AList.delete k (kv r))"
  by (auto simp: redis_delete_def next_fault_def split: list.splits if_splits)

lemma promote_loop_engine:
  "memory s = Some d \<Longrightarrow>
     memory (snd (promote_loop eng s ms acc)) = Some (engine_run eng d ms) \<and>
     add_calls (snd (promote_loop eng s ms acc)) = add_calls s @ map promote_args ms"
proof (induction ms arbitrary: s d acc)
  case Nil
  then show ?case by simp
next
  case (Cons m ms)
  obtain res d' where a: "mem0_add eng d (promote_args m) = (res, d')"
    by (cases "mem0_add eng d (promote_args m)")
  let ?s1 = "s\<lparr>memory := Some d', add_calls := add_calls s @ [promote_args m]\<rparr>"
  have ma: "memory_add eng s (promote_args m) = (res, ?s1)"
    using Cons.prems a by (simp add: memory_add_def)
  have ih: "memory (snd (promote_loop eng t ms acc')) = Some (engine_run eng d' ms) \<and>
            add_calls (snd (promote_loop eng t ms acc')) = add_calls t @ map promote_args ms"
    if "memory t = Some d'" for t acc'
    using Cons.IH [OF that] .
  show ?case
    using a ma
    by (auto simp: Let_def ih split: option.splits prod.splits)
qed


definition succeeded_keys :: "'d engine \<Rightarrow> 'd \<Rightarrow> promotable list \<Rightarrow> string list" where
  "succeeded_keys eng d ms =
     map (\<lambda>x. redis_key (fst x)) (filter (\<lambda>x. snd x \<noteq> None) (add_results eng d ms))"

lemma succeeded_keys_Nil [simp]: "succeeded_keys eng d [] = []"
  by (simp add: succeeded_keys_def)

lemma succeeded_keys_Cons:
  "mem0_add eng d (promote_args m) = (res, d') \<Longrightarrow>
     succeeded_keys eng d (m # ms) =
       (if res = None then [] else [redis_key m]) @ succeeded_keys eng d' ms"
  by (simp add: succeeded_keys_def)

lemma promoted_of_Cons:
  "mem0_add eng d (promote_args m) = (res, d') \<Longrightarrow>
     concat (map promoted_of (add_results eng d (m # ms))) =
       (case res of None \<Rightarrow> [] | Some v \<Rightarrow> [\<lparr>original_key = redis_key m, promo_result = v\<rparr>])
       @ concat (map promoted_of (add_results eng d' ms))"
  by (simp add: promoted_of_def split: option.splits)

lemma promote_loop_store:
  assumes "memory s = Some d" and "redis_client s = Some r"
  shows "\<exists>r'. redis_client (snd (promote_loop eng s ms acc)) = Some r' \<and>
           entries_kept (kv r) (kv r') \<and>
           (\<forall>k. map_of (kv r') k \<noteq> map_of (kv r) k \<longrightarrow> k \<in> set (succeeded_keys eng d ms)) \<and>
           set (fst (promote_loop eng s ms acc))
             \<subseteq> set acc \<union> set (concat (map promoted_of (add_results eng d ms)))"
  using assms
proof (induction ms arbitrary: s d r acc)
  case Nil
  then show ?case by (simp add: entries_kept_refl)
next
  case (Cons m ms)
  obtain res d' where a: "mem0_add eng d (promote_args m) = (res, d')"
    by (cases "mem0_add eng d (promote_args m)")
  let ?s1 = "s\<lparr>memory := Some d', add_calls := add_calls s @ [promote_args m]\<rparr>"
  have ma: "memory_add eng s (promote_args m) = (res, ?s1)"
    using Cons.prems a by (simp add: memory_add_def)
  have s1: "memory ?s1 = Some d'" "redis_client ?s1 = Some r"
    using Cons.prems by simp_all
  note sk = succeeded_keys_Cons [OF a, of ms]
  note po = promoted_of_Cons [OF a, of ms]
  show ?case
  proof (cases res)
    case None
    have step: "promote_loop eng s (m # ms) acc = promote_loop eng ?s1 ms acc"
      using ma None by simp
    from Cons.IH [OF s1, of acc] show ?thesis
      unfolding step sk po using None by auto
  next
    case (Some v)
    let ?item = "\<lparr>original_key = redis_key m, promo_result = v\<rparr>"
    show ?thesis
    proof (cases "redis_key m = []")
      case True
      have step: "promote_loop eng s (m # ms) acc = promote_loop eng ?s1 ms (acc @ [?item])"
        using ma Some True s1 by (simp add: Let_def)
      from Cons.IH [OF s1, of "acc @ [?item]"] show ?thesis
        unfolding step sk po using Some by auto
    next
      case False
      obtain dres r1 where del: "redis_delete r (redis_key m) = (dres, r1)"
        by (cases "redis_delete r (redis_key m)")
      let ?s2 = "?s1\<lparr>redis_client := Some r1\<rparr>"
      have s2: "memory ?s2 = Some d'" "redis_client ?s2 = Some r1"
        by simp_all
      from redis_delete_cases [OF del]
      show ?thesis
      proof
        assume f: "dres = None \<and> kv r1 = kv r"
        have step: "promote_loop eng s (m # ms) acc = promote_loop eng ?s2 ms acc"
          using ma Some False s1 del f by (simp add: Let_def)
        from Cons.IH [OF s2, of acc] show ?thesis
          unfolding step sk po using Some f by auto
      next
        assume f: "dres = Some () \<and> kv r1 = AList.delete (redis_key m) (kv r)"
        have step: "promote_loop eng s (m # ms) acc = promote_loop eng ?s2 ms (acc @ [?item])"
          using ma Some False s1 del f by (simp add: Let_def)
        from Cons.IH [OF s2, of "acc @ [?item]"]
        obtain r' where r': "redis_client (snd (promote_loop eng ?s2 ms (acc @ [?item]))) = Some r'"
          "entries_kept (kv r1) (kv r')"
          "\<forall>k. map_of (kv r') k \<noteq> map_of (kv r1) k \<longrightarrow> k \<in> set (succeeded_keys eng d' ms)"
          "set (fst (promote_loop eng ?s2 ms (acc @ [?item])))
             \<subseteq> set (acc @ [?item]) \<union> set (concat (map promoted_of (add_results eng d' ms)))"
          by blast
        have k1: "entries_kept (kv r) (kv r')"
          using entries_kept_trans [OF entries_kept_delete [of "kv r" "redis_key m"]] r'(2) f
          by simp
        have k2: "\<forall>k. map_of (kv r') k \<noteq> map_of (kv r) k \<longrightarrow>
                    k \<in> set (succeeded_keys eng d (m # ms))"
          unfolding sk using r'(3) f Some by (auto simp: delete_conv' split: if_splits)
        show ?thesis
          unfolding step po using r'(1) r'(4) k1 k2 Some by auto
      qed
    qed
  qed
qed

lemma promote_loop_ok:
  assumes "memory s = Some d" and "redis_client s = Some r" and "faults r = []"
      and "\<forall>m\<in>set ms. redis_key m \<noteq> []"
  shows "fst (promote_loop eng s ms acc) = acc @ concat (map promoted_of (add_results eng d ms)) \<and>
         (\<exists>r'. redis_client (snd (promote_loop eng s ms acc)) = Some r' \<and> faults r' = [] \<and>
            (\<forall>k. map_of (kv r') k =
                   (if k \<in> set (succeeded_keys eng d ms) then None else map_of (kv r) k)))"
  using assms
proof (induction ms arbitrary: s d r acc)
  case Nil
  then show ?case by simp
next
  case (Cons m ms)
  obtain res d' where a: "mem0_add eng d (promote_args m) = (res, d')"
    by (cases "mem0_add eng d (promote_args m)")
  let ?s1 = "s\<lparr>memory := Some d', add_calls := add_calls s @ [promote_args m]\<rparr>"
  have ma: "memory_add eng s (promote_args m) = (res, ?s1)"
    using Cons.prems a by (simp add: memory_add_def)
  have s1: "memory ?s1 = Some d'" "redis_client ?s1 = Some r"
    using Cons.prems by simp_all
  have ne: "\<forall>m\<in>set ms. redis_key m \<noteq> []" "redis_key m \<noteq> []"
    using Cons.prems by simp_all
  note sk = succeeded_keys_Cons [OF a, of ms]
  note po = promoted_of_Cons [OF a, of ms]
  show ?case
  proof (cases res)
    case None
    have step: "promote_loop eng s (m # ms) acc = promote_loop eng ?s1 ms acc"
      using ma None by simp
    from Cons.IH [OF s1 Cons.prems(3) ne(1), of acc] show ?thesis
      unfolding step sk po using None by simp
  next
    case (Some v)
    let ?item = "\<lparr>original_key = redis_key m, promo_result = v\<rparr>"
    let ?r1 = "r\<lparr>kv := AList.delete (redis_key m) (kv r)\<rparr>"
    let ?s2 = "?s1\<lparr>redis_client := Some ?r1\<rparr>"
    have s2: "memory ?s2 = Some d'" "redis_client ?s2 = Some ?r1" "faults ?r1 = []"
      using Cons.prems by simp_all
    have step: "promote_loop eng s (m # ms) acc = promote_loop eng ?s2 ms (acc @ [?item])"
      using ma Some ne(2) s1 Cons.prems(3) by (simp add: Let_def redis_delete_ok)
    from Cons.IH [OF s2 ne(1), of "acc @ [?item]"] show ?thesis
      unfolding step sk po using Some by (auto simp: delete_conv')
  qed
qed


lemma fst_add_results [simp]: "map fst (add_results eng d ms) = ms"
  by (induction ms arbitrary: d) (auto split: prod.splits)

lemma keys_add_results:
  "map (\<lambda>x. redis_key (fst x)) (add_results eng d ms) = map redis_key ms"
  by (induction ms arbitrary: d) (auto split: prod.splits)

lemma failed_not_succeeded:
  assumes "distinct (map redis_key ms)" and "(m, None) \<in> set (add_results eng d ms)"
  shows "redis_key m \<notin> set (succeeded_keys eng d ms)"
proof
  assume "redis_key m \<in> set (succeeded_keys eng d ms)"
  then obtain x where x: "x \<in> set (add_results eng d ms)" "snd x \<noteq> None"
    "redis_key (fst x) = redis_key m"
    by (auto simp: succeeded_keys_def)
  have "distinct (map (\<lambda>x. redis_key (fst x)) (add_results eng d ms))"
    using assms(1) by (simp only: keys_add_results)
  then have inj: "inj_on (\<lambda>x. redis_key (fst x)) (set (add_results eng d ms))"
    by (simp only: distinct_map)
  have "(\<lambda>x. redis_key (fst x)) x = (\<lambda>x. redis_key (fst x)) (m, None)"
    using x(3) by simp
  from inj_onD [OF inj this x(1) assms(2)] have "x = (m, None)" .
  with x(2) show False by simp
qed

lemma succeeded_in_keys:
  "(m, Some v) \<in> set (add_results eng d ms) \<Longrightarrow> redis_key m \<in> set (succeeded_keys eng d ms)"
  by (force simp: succeeded_keys_def)




lemma delete_raised_Cons:
  "mem0_add eng d (promote_args m) = (res, d') \<Longrightarrow>
     delete_raised eng d fs (m # ms) =
       (if res = None \<or> redis_key m = [] then delete_raised eng d' fs ms
        else (if fs \<noteq> [] \<and> hd fs then [m] else []) @ delete_raised eng d' (tl fs) ms)"
  by (cases fs; cases res) simp_all

lemma redis_delete_schedule:
  assumes "redis_delete r k = (dres, r1)"
  shows "faults r1 = tl (faults r) \<and> (dres = None \<longleftrightarrow> faults r \<noteq> [] \<and> hd (faults r)) \<and>
         (dres = None \<longrightarrow> kv r1 = kv r) \<and>
         (dres \<noteq> None \<longrightarrow> kv r1 = AList.delete k (kv r))"
  using assms by (auto simp: redis_delete_def next_fault_def split: list.splits if_splits)

lemma delete_raised_subset: "set (delete_raised eng d fs ms) \<subseteq> set ms"
proof (induction ms arbitrary: d fs)
  case Nil
  then show ?case by simp
next
  case (Cons m ms)
  obtain res d' where a: "mem0_add eng d (promote_args m) = (res, d')"
    by (cases "mem0_add eng d (promote_args m)")
  show ?case
    unfolding delete_raised_Cons [OF a] using Cons.IH by (auto split: if_splits)
qed

lemma delete_raised_succeeded:
  "m \<in> set (delete_raised eng d fs ms) \<Longrightarrow> \<exists>v. (m, Some v) \<in> set (add_results eng d ms)"
proof (induction ms arbitrary: d fs)
  case Nil
  then show ?case by simp
next
  case (Cons m0 ms)
  obtain res d' where a: "mem0_add eng d (promote_args m0) = (res, d')"
    by (cases "mem0_add eng d (promote_args m0)")
  from Cons.prems have "(m = m0 \<and> res \<noteq> None) \<or> (\<exists>fs'. m \<in> set (delete_raised eng d' fs' ms))"
    unfolding delete_raised_Cons [OF a] by (auto split: if_splits)
  then show ?case
  proof
    assume "m = m0 \<and> res \<noteq> None"
    then show ?thesis using a by auto
  next
    assume "\<exists>fs'. m \<in> set (delete_raised eng d' fs' ms)"
    then obtain fs' where "m \<in> set (delete_raised eng d' fs' ms)" by blast
    from Cons.IH [OF this] show ?thesis using a by auto
  qed
qed

lemma succeeded_keys_subset: "set (succeeded_keys eng d ms) \<subseteq> redis_key ` set ms"
proof -
  have "set (succeeded_keys eng d ms)
          \<subseteq> set (map (\<lambda>x. redis_key (fst x)) (add_results eng d ms))"
    by (auto simp: succeeded_keys_def)
  then show ?thesis
    by (simp only: keys_add_results set_map)
qed

lemma promoted_keys_subset:
  "original_key ` set (concat (map promoted_of (add_results eng d ms))) \<subseteq> redis_key ` set ms"
proof -
  have "original_key ` set (concat (map promoted_of (add_results eng d ms)))
          \<subseteq> set (map (\<lambda>x. redis_key (fst x)) (add_results eng d ms))"
    by (force simp: promoted_of_def split: option.splits)
  then show ?thesis
    by (simp only: keys_add_results set_map)
qed

lemma promote_loop_delete_raised:
  assumes "memory s = Some d" and "redis_client s = Some r"
      and "distinct (map redis_key ms)"
      and "m \<in> set (delete_raised eng d (faults r) ms)"
      and "redis_key m \<notin> original_key ` set acc"
  shows "\<exists>r'. redis_client (snd (promote_loop eng s ms acc)) = Some r' \<and>
           map_of (kv r') (redis_key m) = map_of (kv r) (redis_key m) \<and>
           redis_key m \<notin> original_key ` set (fst (promote_loop eng s ms acc))"
  using assms
proof (induction ms arbitrary: s d r acc)
  case Nil
  then show ?case by simp
next
  case (Cons m0 ms)
  obtain res d' where a: "mem0_add eng d (promote_args m0) = (res, d')"
    by (cases "mem0_add eng d (promote_args m0)")
  let ?s1 = "s\<lparr>memory := Some d', add_calls := add_calls s @ [promote_args m0]\<rparr>"
  have ma: "memory_add eng s (promote_args m0) = (res, ?s1)"
    using Cons.prems(1) a by (simp add: memory_add_def)
  have s1: "memory ?s1 = Some d'" "redis_client ?s1 = Some r"
    using Cons.prems by simp_all
  have dis: "distinct (map redis_key ms)" and k0: "redis_key m0 \<notin> redis_key ` set ms"
    using Cons.prems(3) by simp_all
  note mem = Cons.prems(4) [unfolded delete_raised_Cons [OF a]]
  note nacc = Cons.prems(5)
  have other: "redis_key m \<noteq> redis_key m0" if "m \<in> set (delete_raised eng d' fs' ms)" for fs'
  proof -
    from that have "m \<in> set ms"
      using delete_raised_subset [of eng d' fs' ms] by blast
    then have "redis_key m \<in> redis_key ` set ms" by (rule imageI)
    with k0 show ?thesis by metis
  qed
  show ?case
  proof (cases res)
    case None
    have step: "promote_loop eng s (m0 # ms) acc = promote_loop eng ?s1 ms acc"
      using ma None by simp
    from mem None have "m \<in> set (delete_raised eng d' (faults r) ms)" by simp
    from Cons.IH [OF s1 dis this nacc] show ?thesis
      unfolding step .
  next
    case (Some v)
    let ?item = "\<lparr>original_key = redis_key m0, promo_result = v\<rparr>"
    show ?thesis
    proof (cases "redis_key m0 = []")
      case True
      have step: "promote_loop eng s (m0 # ms) acc = promote_loop eng ?s1 ms (acc @ [?item])"
        using ma Some True s1 by (simp add: Let_def)
      from mem Some True have tl: "m \<in> set (delete_raised eng d' (faults r) ms)" by simp
      have "redis_key m \<notin> original_key ` set (acc @ [?item])"
        using nacc other [OF tl] by simp
      from Cons.IH [OF s1 dis tl this] show ?thesis
        unfolding step .
    next
      case False
      obtain dres r1 where del: "redis_delete r (redis_key m0) = (dres, r1)"
        by (cases "redis_delete r (redis_key m0)")
      from redis_delete_schedule [OF del]
      have f1: "faults r1 = tl (faults r)"
        and fr: "dres = None \<longleftrightarrow> faults r \<noteq> [] \<and> hd (faults r)"
        and kn: "dres = None \<longrightarrow> kv r1 = kv r"
        and ks: "dres \<noteq> None \<longrightarrow> kv r1 = AList.delete (redis_key m0) (kv r)"
        by blast+
      let ?s2 = "?s1\<lparr>redis_client := Some r1\<rparr>"
      have s2: "memory ?s2 = Some d'" "redis_client ?s2 = Some r1"
        by simp_all
      show ?thesis
      proof (cases dres)
        case None
        have step: "promote_loop eng s (m0 # ms) acc = promote_loop eng ?s2 ms acc"
          using ma Some False s1 del None by (simp add: Let_def)
        from mem Some False fr None f1
        have "m = m0 \<or> m \<in> set (delete_raised eng d' (faults r1) ms)" by auto
        then show ?thesis
        proof
          assume eq: "m = m0"
          from promote_loop_store [OF s2, of eng ms acc]
          obtain r' where r': "redis_client (snd (promote_loop eng ?s2 ms acc)) = Some r'"
            "\<forall>k. map_of (kv r') k \<noteq> map_of (kv r1) k \<longrightarrow> k \<in> set (succeeded_keys eng d' ms)"
            "set (fst (promote_loop eng ?s2 ms acc))
               \<subseteq> set acc \<union> set (concat (map promoted_of (add_results eng d' ms)))"
            by blast
          have "redis_key m0 \<notin> set (succeeded_keys eng d' ms)"
            using succeeded_keys_subset [of eng d' ms] k0 by blast
          with r'(2) kn None have same: "map_of (kv r') (redis_key m0) = map_of (kv r) (redis_key m0)"
            by auto
          have "redis_key m0 \<notin> original_key ` set (concat (map promoted_of (add_results eng d' ms)))"
            using promoted_keys_subset [of eng d' ms] k0 by blast
          with nacc eq r'(3)
          have "redis_key m0 \<notin> original_key ` set (fst (promote_loop eng ?s2 ms acc))"
            by blast
          with r'(1) same show ?thesis
            unfolding step eq by blast
        next
          assume tl: "m \<in> set (delete_raised eng d' (faults r1) ms)"
          from Cons.IH [OF s2 dis tl nacc] kn None show ?thesis
            unfolding step by simp
        qed
      next
        case (Some u)
        have step: "promote_loop eng s (m0 # ms) acc = promote_loop eng ?s2 ms (acc @ [?item])"
          using ma \<open>res = Some v\<close> False s1 del Some by (simp add: Let_def)
        from mem \<open>res = Some v\<close> False fr Some f1
        have tl: "m \<in> set (delete_raised eng d' (faults r1) ms)" by auto
        have ne: "redis_key m \<noteq> redis_key m0" by (rule other [OF tl])
        then have "redis_key m \<notin> original_key ` set (acc @ [?item])"
          using nacc by simp
        from Cons.IH [OF s2 dis tl this] ks Some ne show ?thesis
          unfolding step by (auto simp: delete_conv')
      qed
    qed
  qed
qed

lemma promote_memories_run:
  assumes "memory s = Some d"
      and "get_promotable_memories (redis_client s) (p_user_id request) = (batch, rc)"
  shows "promote_memories eng s request =
           (Inr \<lparr>promoted_count = length (fst (promote_loop eng (s\<lparr>redis_client := rc\<rparr>) batch [])),
                 promoted = fst (promote_loop eng (s\<lparr>redis_client := rc\<rparr>) batch [])\<rparr>,
            snd (promote_loop eng (s\<lparr>redis_client := rc\<rparr>) batch []))"
  using assms by (simp add: promote_memories_def split: prod.splits)

definition promo_store :: "(string \<times> entry) list" where
  "promo_store =
     [(''stm:u1:20240101000000:0a1b2c3d'', sample_entry ''u1'' ''I like tea'' 3),
      (''stm:u1:20240101000009:55667788'', (sample_entry ''u1'' [] 4)\<lparr>messages := []\<rparr>)]"

definition promo_request :: promote_request where
  "promo_request = \<lparr>memory_ids = None, p_user_id = Some ''u1'', p_agent_id = None\<rparr>"

definition promo_good :: promotable where
  "promo_good =
     \<lparr>mem = sample_entry ''u1'' ''I like tea'' 3,
      redis_key = ''stm:u1:20240101000000:0a1b2c3d''\<rparr>"

definition promo_bad :: promotable where
  "promo_bad =
     \<lparr>mem = (sample_entry ''u1'' [] 4)\<lparr>messages := []\<rparr>,
      redis_key = ''stm:u1:20240101000009:55667788''\<rparr>"

text \<open>
  C2 as stated fails when the Redis delete raises after a successful durable add: the
  exception is caught by the handler of the loop, so the record stays in the ephemeral
  store although the engine holds it, and the response does not list it. Here KEYS and
  GET succeed and DELETE raises.
\<close>

theorem promotion_delete_fault_counterexample:
  "fst (get_promotable_memories
          (redis_client (sample_server [(redis_key promo_good, mem promo_good)] [False, False, True]))
          (p_user_id promo_request)) = [promo_good] \<and>
   add_results sample_engine [] [promo_good] = [(promo_good, Some ''added'')] \<and>
   promote_memories sample_engine
       (sample_server [(redis_key promo_good, mem promo_good)] [False, False, True]) promo_request
     = (Inr \<lparr>promoted_count = 0, promoted = []\<rparr>,
        \<lparr>redis_client = Some \<lparr>kv = [(redis_key promo_good, mem promo_good)], faults = []\<rparr>,
         memory = Some [hit_of (promote_args promo_good)],
         add_calls = [promote_args promo_good]\<rparr>)"
  by code_simp

text \<open>
  C2, amended. Take a record \<open>m\<close> of a promotion batch, \<open>res\<close> the outcome of
  the engine's add for it, and a store with one entry per key. The record was in the
  store. If the durable add failed the entry is left unchanged, and a record is deleted
  only if its durable add succeeded. When no Redis call of the request raises, the
  record is deleted if and only if its durable add succeeded, and after a failed add
  the next scan, for the same owner, returns the record again. When the Redis delete of
  the record raises after its add succeeded (\<open>rs\<close> is the Redis client after the
  scan of the request), the entry is left unchanged and the response does not list it.
\<close>

theorem promotion_moves:
  assumes eng: "memory s = Some d"
      and cli: "redis_client s = Some r"
      and dis: "distinct (map fst (kv r))"
      and scan: "get_promotable_memories (Some r) (p_user_id request) = (batch, rc)"
      and run: "promote_memories eng s request = (out, s')"
      and rec: "(m, res) \<in> set (add_results eng d batch)"
  shows "\<exists>r'. redis_client s' = Some r' \<and>
           map_of (kv r) (redis_key m) = Some (mem m) \<and>
           (res = None \<longrightarrow> map_of (kv r') (redis_key m) = Some (mem m)) \<and>
           (map_of (kv r') (redis_key m) = None \<longrightarrow> res \<noteq> None) \<and>
           (faults r = [] \<longrightarrow>
              (map_of (kv r') (redis_key m) = None \<longleftrightarrow> res \<noteq> None) \<and>
              (res = None \<longrightarrow>
                 m \<in> set (fst (get_promotable_memories (Some r') (p_user_id request))))) \<and>
           (rc = Some rs \<and> m \<in> set (delete_raised eng d (faults rs) batch) \<longrightarrow>
              res \<noteq> None \<and> map_of (kv r') (redis_key m) = Some (mem m) \<and>
              (\<exists>resp. out = Inr resp \<and>
                 redis_key m \<notin> original_key ` set (promoted resp)))"
proof -
  let ?uid = "p_user_id request"
  let ?pat = "''stm:'' @ py_or ?uid ''*'' @ '':*''"
  obtain r0 where r0: "rc = Some r0" "kv r0 = kv r"
    using get_promotable_memories_any [OF scan] by blast
  let ?s0 = "s\<lparr>redis_client := rc\<rparr>"
  let ?loop = "promote_loop eng ?s0 batch []"
  have s0: "memory ?s0 = Some d" "redis_client ?s0 = Some r0"
    using eng r0 by simp_all
  have s': "s' = snd ?loop"
    using promote_memories_run [of s d request batch rc eng] eng cli scan run by simp
  from batch_facts [OF scan dis]
  have bd: "distinct (map redis_key batch)"
    and bf: "\<forall>m\<in>set batch. redis_key m \<noteq> [] \<and> map_of (kv r) (redis_key m) = Some (mem m) \<and>
               glob ?pat (redis_key m) \<and> PROMOTION_THRESHOLD \<le> access_count (mem m)"
    by simp_all
  have "fst (m, res) \<in> set (map fst (add_results eng d batch))"
    using rec by (simp only: set_map) (rule imageI)
  then have mb: "m \<in> set batch" by simp
  from bf mb have m0: "redis_key m \<noteq> []" "map_of (kv r) (redis_key m) = Some (mem m)"
    "glob ?pat (redis_key m)" "PROMOTION_THRESHOLD \<le> access_count (mem m)"
    by simp_all
  from promote_loop_store [OF s0, of eng batch "[]"]
  obtain r' where r': "redis_client (snd ?loop) = Some r'"
    "entries_kept (kv r0) (kv r')"
    "\<forall>k. map_of (kv r') k \<noteq> map_of (kv r0) k \<longrightarrow> k \<in> set (succeeded_keys eng d batch)"
    by blast
  have failed: "map_of (kv r') (redis_key m) = Some (mem m)" if "res = None"
  proof -
    from that rec have "(m, None) \<in> set (add_results eng d batch)" by simp
    from failed_not_succeeded [OF bd this]
    have "redis_key m \<notin> set (succeeded_keys eng d batch)" .
    with r'(3) have "map_of (kv r') (redis_key m) = map_of (kv r0) (redis_key m)" by blast
    with r0(2) m0(2) show ?thesis by simp
  qed
  have nofault: "(map_of (kv r') (redis_key m) = None \<longleftrightarrow> res \<noteq> None) \<and>
              (res = None \<longrightarrow> m \<in> set (fst (get_promotable_memories (Some r') ?uid)))"
    if nf: "faults r = []"
  proof -
    have rc: "rc = Some r"
      using scan get_promotable_memories_ok [OF nf, of ?uid] by simp
    with r0 have "r0 = r" by simp
    with s0 have s0r: "redis_client ?s0 = Some r" by simp
    from promote_loop_ok [OF s0(1) s0r nf, of batch eng "[]"] bf
    obtain r2 where r2: "redis_client (snd ?loop) = Some r2" "faults r2 = []"
      "\<forall>k. map_of (kv r2) k = (if k \<in> set (succeeded_keys eng d batch) then None else map_of (kv r) k)"
      by auto
    with r'(1) have eq: "r2 = r'" by simp
    have a: "map_of (kv r') (redis_key m) = None \<longleftrightarrow> res \<noteq> None"
    proof (cases res)
      case None
      with failed show ?thesis by simp
    next
      case (Some v)
      with rec succeeded_in_keys have "redis_key m \<in> set (succeeded_keys eng d batch)" by fast
      with r2(3) eq Some show ?thesis by simp
    qed
    have b: "m \<in> set (fst (get_promotable_memories (Some r') ?uid))" if "res = None"
    proof -
      have there: "map_of (kv r') (redis_key m) = Some (mem m)" using failed that .
      then have "(redis_key m, mem m) \<in> set (kv r')" by (rule map_of_SomeD)
      then have k: "redis_key m \<in> set (map fst (kv r'))" by force
      have "m \<in> set (eligible_at r' (redis_key m))"
        using there m0(4) by (simp add: in_eligible_at)
      moreover have "faults r' = []" using r2(2) eq by simp
      ultimately show ?thesis
        using k m0(3) by (force simp: get_promotable_memories_ok)
    qed
    from a b show ?thesis by simp
  qed
  have only_if: "res \<noteq> None" if "map_of (kv r') (redis_key m) = None"
    using failed that by (cases res) simp_all
  have cl: "redis_client s' = Some r'" using s' r'(1) by simp
  have c3: "res = None \<longrightarrow> map_of (kv r') (redis_key m) = Some (mem m)"
    using failed by blast
  have c4: "map_of (kv r') (redis_key m) = None \<longrightarrow> res \<noteq> None"
    using only_if by blast
  have c5: "faults r = [] \<longrightarrow>
              (map_of (kv r') (redis_key m) = None \<longleftrightarrow> res \<noteq> None) \<and>
              (res = None \<longrightarrow>
                 m \<in> set (fst (get_promotable_memories (Some r') (p_user_id request))))"
    using nofault by blast
  have raised: "res \<noteq> None \<and> map_of (kv r') (redis_key m) = Some (mem m) \<and>
              (\<exists>resp. out = Inr resp \<and>
                 redis_key m \<notin> original_key ` set (promoted resp))"
    if h: "rc = Some rs \<and> m \<in> set (delete_raised eng d (faults rs) batch)"
  proof -
    from h r0(1) have dr: "m \<in> set (delete_raised eng d (faults r0) batch)" by simp
    have na: "redis_key m \<notin> original_key ` set []" by simp
    from promote_loop_delete_raised [OF s0 bd dr na] r'(1)
    have same: "map_of (kv r') (redis_key m) = map_of (kv r0) (redis_key m)"
      and nl: "redis_key m \<notin> original_key ` set (fst ?loop)"
      by simp_all
    from delete_raised_succeeded [OF dr]
    obtain v where v: "(m, Some v) \<in> set (add_results eng d batch)" by blast
    have ok: "res \<noteq> None"
    proof
      assume "res = None"
      with rec have "(m, None) \<in> set (add_results eng d batch)" by simp
      from failed_not_succeeded [OF bd this] succeeded_in_keys [OF v]
      show False by simp
    qed
    have out: "out = Inr \<lparr>promoted_count = length (fst ?loop), promoted = fst ?loop\<rparr>"
      using promote_memories_run [of s d request batch rc eng] eng cli scan run by simp
    have "\<exists>resp. out = Inr resp \<and> redis_key m \<notin> original_key ` set (promoted resp)"
      unfolding out using nl by simp
    with ok same r0(2) m0(2) show ?thesis by simp
  qed
  have c6: "rc = Some rs \<and> m \<in> set (delete_raised eng d (faults rs) batch) \<longrightarrow>
              res \<noteq> None \<and> map_of (kv r') (redis_key m) = Some (mem m) \<and>
              (\<exists>resp. out = Inr resp \<and>
                 redis_key m \<notin> original_key ` set (promoted resp))"
    using raised by blast
  from cl m0(2) c3 c4 c5 c6 show ?thesis by (intro exI [of _ r'] conjI)
qed

text \<open>
  A batch of two: the engine stores the first record and rejects the second (its message
  list is empty). The first key is gone, the second entry is as before and the next scan
  returns it. And a batch of one whose delete raises, the third call to Redis after KEYS
  and GET: the entry is as before and the response does not list it.
\<close>

theorem promotion_moves_witness:
  "memory (sample_server promo_store []) = Some [] \<and>
   redis_client (sample_server promo_store []) = Some \<lparr>kv = promo_store, faults = []\<rparr> \<and>
   distinct (map fst promo_store) \<and>
   add_results sample_engine [] [promo_good, promo_bad]
     = [(promo_good, Some ''added''), (promo_bad, None)] \<and>
   (\<exists>r'. redis_client (snd (promote_memories sample_engine (sample_server promo_store [])
                              promo_request)) = Some r' \<and>
      map_of (kv r') (redis_key promo_good) = None \<and>
      map_of (kv r') (redis_key promo_bad) = Some (mem promo_bad) \<and>
      promo_bad \<in> set (fst (get_promotable_memories (Some r') (p_user_id promo_request)))) \<and>
   delete_raised sample_engine [] [True] [promo_good] = [promo_good] \<and>
   (\<exists>r' resp.
      promote_memories sample_engine
          (sample_server [(redis_key promo_good, mem promo_good)] [False, False, True])
          promo_request
        = (Inr resp, \<lparr>redis_client = Some r', memory = Some [hit_of (promote_args promo_good)],
                        add_calls = [promote_args promo_good]\<rparr>) \<and>
      map_of (kv r') (redis_key promo_good) = Some (mem promo_good) \<and>
      redis_key promo_good \<notin> original_key ` set (promoted resp))"
proof -
  let ?s = "sample_server promo_store []"
  let ?r = "\<lparr>kv = promo_store, faults = []\<rparr>"
  let ?run = "promote_memories sample_engine ?s promo_request"
  have m: "memory ?s = Some []" and c: "redis_client ?s = Some ?r"
    by (simp_all add: sample_server_def)
  have d: "distinct (map fst (kv ?r))" by (simp add: promo_store_def)
  have scan: "get_promotable_memories (Some ?r) (p_user_id promo_request)
                = ([promo_good, promo_bad], Some ?r)"
    by code_simp
  have ar: "add_results sample_engine [] [promo_good, promo_bad]
              = [(promo_good, Some ''added''), (promo_bad, None)]"
    by code_simp
  have run: "?run = (fst ?run, snd ?run)" by simp
  have good: "(promo_good, Some ''added'') \<in> set (add_results sample_engine [] [promo_good, promo_bad])"
    and bad: "(promo_bad, None) \<in> set (add_results sample_engine [] [promo_good, promo_bad])"
    unfolding ar by simp_all
  have nf: "faults ?r = []" by simp
  have ne: "(Some ''added'' :: add_result option) \<noteq> None" by simp
  from promotion_moves [OF m c d scan run good, where rs = ?r] nf ne
  obtain ra where ra: "redis_client (snd ?run) = Some ra"
      "map_of (kv ra) (redis_key promo_good) = None"
    by blast
  from promotion_moves [OF m c d scan run bad, where rs = ?r] nf
  obtain rb where rb: "redis_client (snd ?run) = Some rb"
      "map_of (kv rb) (redis_key promo_bad) = Some (mem promo_bad)"
      "promo_bad \<in> set (fst (get_promotable_memories (Some rb) (p_user_id promo_request)))"
    by blast
  from ra(1) rb(1) have "rb = ra" by simp
  with ra rb
  have "\<exists>r'. redis_client (snd ?run) = Some r' \<and>
      map_of (kv r') (redis_key promo_good) = None \<and>
      map_of (kv r') (redis_key promo_bad) = Some (mem promo_bad) \<and>
      promo_bad \<in> set (fst (get_promotable_memories (Some r') (p_user_id promo_request)))"
    by blast
  with m c d ar
  have first: "memory ?s = Some [] \<and>
     redis_client ?s = Some \<lparr>kv = promo_store, faults = []\<rparr> \<and>
     distinct (map fst promo_store) \<and>
     add_results sample_engine [] [promo_good, promo_bad]
       = [(promo_good, Some ''added''), (promo_bad, None)] \<and>
     (\<exists>r'. redis_client (snd ?run) = Some r' \<and>
        map_of (kv r') (redis_key promo_good) = None \<and>
        map_of (kv r') (redis_key promo_bad) = Some (mem promo_bad) \<and>
        promo_bad \<in> set (fst (get_promotable_memories (Some r') (p_user_id promo_request))))"
    by simp
  let ?kv2 = "[(redis_key promo_good, mem promo_good)]"
  let ?s2 = "sample_server ?kv2 [False, False, True]"
  let ?r2 = "\<lparr>kv = ?kv2, faults = [False, False, True]\<rparr>"
  let ?rs = "\<lparr>kv = ?kv2, faults = [True]\<rparr>"
  let ?run2 = "promote_memories sample_engine ?s2 promo_request"
  have m2: "memory ?s2 = Some []" and c2: "redis_client ?s2 = Some ?r2"
    by (simp_all add: sample_server_def)
  have d2: "distinct (map fst (kv ?r2))" by simp
  have scan2: "get_promotable_memories (Some ?r2) (p_user_id promo_request)
                 = ([promo_good], Some ?rs)"
    by code_simp
  have dr: "delete_raised sample_engine [] [True] [promo_good] = [promo_good]"
    by code_simp
  have ar2: "add_results sample_engine [] [promo_good] = [(promo_good, Some ''added'')]"
    by code_simp
  have rec2: "(promo_good, Some ''added'') \<in> set (add_results sample_engine [] [promo_good])"
    unfolding ar2 by simp
  have run2: "?run2 = (fst ?run2, snd ?run2)" by simp
  have st2: "snd ?run2 = \<lparr>redis_client = redis_client (snd ?run2),
                            memory = Some [hit_of (promote_args promo_good)],
                            add_calls = [promote_args promo_good]\<rparr>"
    by code_simp
  have h2: "Some ?rs = Some ?rs \<and> promo_good \<in> set (delete_raised sample_engine [] (faults ?rs) [promo_good])"
    using dr by simp
  from promotion_moves [OF m2 c2 d2 scan2 run2 rec2, where rs = ?rs] h2
  obtain r' resp where r': "redis_client (snd ?run2) = Some r'"
      "map_of (kv r') (redis_key promo_good) = Some (mem promo_good)"
      "fst ?run2 = Inr resp"
      "redis_key promo_good \<notin> original_key ` set (promoted resp)"
    by blast
  have "?run2 = (Inr resp, \<lparr>redis_client = Some r', memory = Some [hit_of (promote_args promo_good)],
                              add_calls = [promote_args promo_good]\<rparr>)"
    using run2 st2 r'(1) r'(3) by simp
  with r'(2) r'(4)
  have second: "\<exists>r' resp. ?run2
        = (Inr resp, \<lparr>redis_client = Some r', memory = Some [hit_of (promote_args promo_good)],
                        add_calls = [promote_args promo_good]\<rparr>) \<and>
      map_of (kv r') (redis_key promo_good) = Some (mem promo_good) \<and>
      redis_key promo_good \<notin> original_key ` set (promoted resp)"
    by blast
  from first dr second show ?thesis by simp
qed

subsection \<open>promote: the response\<close>

lemma promote_loop_listed_gone:
  assumes "memory s = Some d" and "redis_client s = Some r"
      and "\<forall>m\<in>set ms. redis_key m \<noteq> []"
      and "\<forall>it\<in>set acc. map_of (kv r) (original_key it) = None"
  shows "\<exists>r'. redis_client (snd (promote_loop eng s ms acc)) = Some r' \<and>
           (\<forall>it\<in>set (fst (promote_loop eng s ms acc)). map_of (kv r') (original_key it) = None)"
  using assms
proof (induction ms arbitrary: s d r acc)
  case Nil
  then show ?case by simp
next
  case (Cons m ms)
  obtain res d' where a: "mem0_add eng d (promote_args m) = (res, d')"
    by (cases "mem0_add eng d (promote_args m)")
  let ?s1 = "s\<lparr>memory := Some d', add_calls := add_calls s @ [promote_args m]\<rparr>"
  have ma: "memory_add eng s (promote_args m) = (res, ?s1)"
    using Cons.prems a by (simp add: memory_add_def)
  have s1: "memory ?s1 = Some d'" "redis_client ?s1 = Some r"
    using Cons.prems by simp_all
  have ne: "\<forall>m\<in>set ms. redis_key m \<noteq> []" "redis_key m \<noteq> []"
    using Cons.prems by simp_all
  show ?case
  proof (cases res)
    case None
    have step: "promote_loop eng s (m # ms) acc = promote_loop eng ?s1 ms acc"
      using ma None by simp
    from Cons.IH [OF s1 ne(1) Cons.prems(4)] show ?thesis
      unfolding step .
  next
    case (Some v)
    let ?item = "\<lparr>original_key = redis_key m, promo_result = v\<rparr>"
    obtain dres r1 where del: "redis_delete r (redis_key m) = (dres, r1)"
      by (cases "redis_delete r (redis_key m)")
    let ?s2 = "?s1\<lparr>redis_client := Some r1\<rparr>"
    have s2: "memory ?s2 = Some d'" "redis_client ?s2 = Some r1"
      by simp_all
    from redis_delete_cases [OF del]
    show ?thesis
    proof
      assume f: "dres = None \<and> kv r1 = kv r"
      have step: "promote_loop eng s (m # ms) acc = promote_loop eng ?s2 ms acc"
        using ma Some ne(2) s1 del f by (simp add: Let_def)
      have acc1: "\<forall>it\<in>set acc. map_of (kv r1) (original_key it) = None"
        using Cons.prems(4) f by simp
      from Cons.IH [OF s2 ne(1) acc1] show ?thesis
        unfolding step .
    next
      assume f: "dres = Some () \<and> kv r1 = AList.delete (redis_key m) (kv r)"
      have step: "promote_loop eng s (m # ms) acc = promote_loop eng ?s2 ms (acc @ [?item])"
        using ma Some ne(2) s1 del f by (simp add: Let_def)
      have acc1: "\<forall>it\<in>set (acc @ [?item]). map_of (kv r1) (original_key it) = None"
        using Cons.prems(4) f by (auto simp: delete_conv')
      from Cons.IH [OF s2 ne(1) acc1] show ?thesis
        unfolding step .
    qed
  qed
qed

text \<open>
  C9 as stated fails: the response has the fields \<open>promoted_count\<close> and
  \<open>promoted\<close> only. A batch of two whose second record fails gives the very response
  of a batch made of the first record alone, so the response reports neither the failed
  record nor a count of failures.
\<close>

theorem promotion_report_counterexample:
  "fst (get_promotable_memories (Some \<lparr>kv = promo_store, faults = []\<rparr>) (p_user_id promo_request))
     = [promo_good, promo_bad] \<and>
   length (filter (\<lambda>x. snd x = None) (add_results sample_engine [] [promo_good, promo_bad])) = 1 \<and>
   fst (promote_memories sample_engine (sample_server promo_store []) promo_request)
     = Inr \<lparr>promoted_count = 1,
            promoted = [\<lparr>original_key = redis_key promo_good, promo_result = ''added''\<rparr>]\<rparr> \<and>
   length (filter (\<lambda>x. snd x = None) (add_results sample_engine [] [promo_good])) = 0 \<and>
   fst (promote_memories sample_engine
          (sample_server [(redis_key promo_good, mem promo_good)] []) promo_request)
     = Inr \<lparr>promoted_count = 1,
            promoted = [\<lparr>original_key = redis_key promo_good, promo_result = ''added''\<rparr>]\<rparr>"
  by code_simp

text \<open>
  C9, amended. A promote request on a running engine always returns a response. The
  response reports the promoted records only: \<open>promoted_count\<close> is the length of
  \<open>promoted\<close>, and every item of \<open>promoted\<close> is a record of the batch whose
  durable add succeeded, with the result of that add; when no Redis call raises, the
  items are exactly those records, in batch order. Records whose durable write failed
  appear nowhere in the response. A failure does not end the batch and nothing is
  rolled back: the add of every record of the batch is invoked, in order; the engine is
  left in the state these adds produce; every entry still in the store is as it was;
  and the key of every listed record is gone from the store.
\<close>

theorem promotion_report:
  assumes eng: "memory s = Some d"
      and cli: "redis_client s = Some r"
      and dis: "distinct (map fst (kv r))"
      and scan: "get_promotable_memories (Some r) (p_user_id request) = (batch, rc)"
  shows "\<exists>resp s' r'. promote_memories eng s request = (Inr resp, s') \<and>
      promoted_count resp = length (promoted resp) \<and>
      set (promoted resp) \<subseteq> set (concat (map promoted_of (add_results eng d batch))) \<and>
      (faults r = [] \<longrightarrow> promoted resp = concat (map promoted_of (add_results eng d batch))) \<and>
      add_calls s' = add_calls s @ map promote_args batch \<and>
      memory s' = Some (engine_run eng d batch) \<and>
      redis_client s' = Some r' \<and> entries_kept (kv r) (kv r') \<and>
      (\<forall>it\<in>set (promoted resp). map_of (kv r') (original_key it) = None)"
proof -
  obtain r0 where r0: "rc = Some r0" "kv r0 = kv r"
    using get_promotable_memories_any [OF scan] by blast
  let ?s0 = "s\<lparr>redis_client := rc\<rparr>"
  let ?loop = "promote_loop eng ?s0 batch []"
  let ?resp = "\<lparr>promoted_count = length (fst ?loop), promoted = fst ?loop\<rparr>"
  have s0: "memory ?s0 = Some d" "redis_client ?s0 = Some r0"
    using eng r0 by simp_all
  have run: "promote_memories eng s request = (Inr ?resp, snd ?loop)"
    using promote_memories_run [of s d request batch rc eng] eng cli scan by simp
  from batch_facts [OF scan dis] have ne: "\<forall>m\<in>set batch. redis_key m \<noteq> []"
    by simp
  from promote_loop_store [OF s0, of eng batch "[]"]
  obtain r' where r': "redis_client (snd ?loop) = Some r'" "entries_kept (kv r0) (kv r')"
    "set (fst ?loop) \<subseteq> set (concat (map promoted_of (add_results eng d batch)))"
    by auto
  from promote_loop_listed_gone [OF s0 ne, of "[]" eng] r'(1)
  have gone: "\<forall>it\<in>set (fst ?loop). map_of (kv r') (original_key it) = None"
    by simp
  from promote_loop_engine [OF s0(1), of eng batch "[]"]
  have e: "memory (snd ?loop) = Some (engine_run eng d batch)"
    "add_calls (snd ?loop) = add_calls s @ map promote_args batch"
    by simp_all
  have full: "fst ?loop = concat (map promoted_of (add_results eng d batch))"
    if nf: "faults r = []"
  proof -
    have "rc = Some r"
      using scan get_promotable_memories_ok [OF nf, of "p_user_id request"] by simp
    then have "redis_client ?s0 = Some r" by simp
    from promote_loop_ok [OF s0(1) this nf ne, of eng "[]"] show ?thesis by simp
  qed
  have c1: "promoted_count ?resp = length (promoted ?resp)" by simp
  have c2: "set (promoted ?resp) \<subseteq> set (concat (map promoted_of (add_results eng d batch)))"
    using r'(3) by simp
  have c3: "faults r = [] \<longrightarrow>
              promoted ?resp = concat (map promoted_of (add_results eng d batch))"
    using full by simp
  have c4: "entries_kept (kv r) (kv r')" using r'(2) r0(2) by simp
  have c5: "\<forall>it\<in>set (promoted ?resp). map_of (kv r') (original_key it) = None"
    using gone by simp
  from run c1 c2 c3 e(2) e(1) r'(1) c4 c5 show ?thesis
    by (intro exI [of _ ?resp] exI [of _ "snd ?loop"] exI [of _ r'] conjI)
qed

text \<open>
  The batch of two again: every add is invoked, the response lists the first record
  alone, and its key is gone from the store.
\<close>

theorem promotion_report_witness:
  "memory (sample_server promo_store []) = Some [] \<and>
   redis_client (sample_server promo_store []) = Some \<lparr>kv = promo_store, faults = []\<rparr> \<and>
   distinct (map fst promo_store) \<and>
   (\<exists>resp s' r'. promote_memories sample_engine (sample_server promo_store []) promo_request
                    = (Inr resp, s') \<and>
      promoted_count resp = 1 \<and>
      promoted resp = [\<lparr>original_key = redis_key promo_good, promo_result = ''added''\<rparr>] \<and>
      add_calls s' = [promote_args promo_good, promote_args promo_bad] \<and>
      redis_client s' = Some r' \<and>
      map_of (kv r') (redis_key promo_good) = None)"
proof -
  let ?s = "sample_server promo_store []"
  let ?r = "\<lparr>kv = promo_store, faults = []\<rparr>"
  have m: "memory ?s = Some []" and c: "redis_client ?s = Some ?r"
    by (simp_all add: sample_server_def)
  have d: "distinct (map fst (kv ?r))" by (simp add: promo_store_def)
  have scan: "get_promotable_memories (Some ?r) (p_user_id promo_request)
                = ([promo_good, promo_bad], Some ?r)"
    by code_simp
  have items: "concat (map promoted_of (add_results sample_engine [] [promo_good, promo_bad]))
                 = [\<lparr>original_key = redis_key promo_good, promo_result = ''added''\<rparr>]"
    by code_simp
  have calls: "add_calls ?s = []" by (simp add: sample_server_def)
  from promotion_report [OF m c d scan, of sample_engine]
  obtain resp s' r' where
    run: "promote_memories sample_engine ?s promo_request = (Inr resp, s')"
    and cnt: "promoted_count resp = length (promoted resp)"
    and full: "faults ?r = [] \<longrightarrow>
                 promoted resp = concat (map promoted_of (add_results sample_engine [] [promo_good, promo_bad]))"
    and ac: "add_calls s' = add_calls ?s @ map promote_args [promo_good, promo_bad]"
    and cl: "redis_client s' = Some r'"
    and gone: "\<forall>it\<in>set (promoted resp). map_of (kv r') (original_key it) = None"
    by blast
  from full items have p: "promoted resp = [\<lparr>original_key = redis_key promo_good, promo_result = ''added''\<rparr>]"
    by simp
  from cnt p have c1: "promoted_count resp = 1" by simp
  from ac calls have a: "add_calls s' = [promote_args promo_good, promote_args promo_bad]" by simp
  from gone p have g: "map_of (kv r') (redis_key promo_good) = None" by simp
  have "\<exists>resp s' r'. promote_memories sample_engine ?s promo_request = (Inr resp, s') \<and>
      promoted_count resp = 1 \<and>
      promoted resp = [\<lparr>original_key = redis_key promo_good, promo_result = ''added''\<rparr>] \<and>
      add_calls s' = [promote_args promo_good, promote_args promo_bad] \<and>
      redis_client s' = Some r' \<and>
      map_of (kv r') (redis_key promo_good) = None"
    using run c1 p a cl g by blast
  with m c d show ?thesis by simp
qed

subsection \<open>promote: explicit memory ids\<close>

definition ids_store :: "(string \<times> entry) list" where
  "ids_store =
     [(''stm:u1:20240101000000:0a1b2c3d'', sample_entry ''u1'' ''I like tea'' 3),
      (''stm:u1:20240101000005:99887766'', sample_entry ''u1'' ''Green tea is best'' 4)]"

lemma promote_ignores_memory_ids:
  "promote_memories eng s (request\<lparr>memory_ids := ids\<rparr>) = promote_memories eng s request"
  by (simp add: promote_memories_def split: option.splits)

text \<open>
  C8. The request names one memory id, the first key; the store holds a second eligible
  record of the same owner. The handler never reads \<open>memory_ids\<close>: both records are
  promoted and both keys are deleted, where the claim has the second one left alone.
\<close>

theorem promote_with_ids_promotes_all:
  "promote_memories sample_engine (sample_server ids_store [])
      \<lparr>memory_ids = Some [''stm:u1:20240101000000:0a1b2c3d''], p_user_id = Some ''u1'',
       p_agent_id = None\<rparr>
   = (Inr \<lparr>promoted_count = 2,
           promoted =
             [\<lparr>original_key = ''stm:u1:20240101000000:0a1b2c3d'', promo_result = ''added''\<rparr>,
              \<lparr>original_key = ''stm:u1:20240101000005:99887766'', promo_result = ''added''\<rparr>]\<rparr>,
      \<lparr>redis_client = Some \<lparr>kv = [], faults = []\<rparr>,
       memory = Some [hit_of (promote_args \<lparr>mem = sample_entry ''u1'' ''I like tea'' 3,
                                            redis_key = ''stm:u1:20240101000000:0a1b2c3d''\<rparr>),
                      hit_of (promote_args \<lparr>mem = sample_entry ''u1'' ''Green tea is best'' 4,
                                            redis_key = ''stm:u1:20240101000005:99887766''\<rparr>)],
       add_calls = [promote_args \<lparr>mem = sample_entry ''u1'' ''I like tea'' 3,
                                  redis_key = ''stm:u1:20240101000000:0a1b2c3d''\<rparr>,
                    promote_args \<lparr>mem = sample_entry ''u1'' ''Green tea is best'' 4,
                                  redis_key = ''stm:u1:20240101000005:99887766''\<rparr>]\<rparr>)"
  by code_simp

subsection \<open>Reading the short-term memory\<close>

text \<open>
  \<open>bump\<close> is the increment \<open>get_short_term\<close> applies to a document it reads, and
  \<open>bump_key\<close> the effect on the store of reading one key. \<open>counts_kept before after\<close>
  says that every entry of the store before is still there after, with an
  \<open>access_count\<close> that is not smaller.
\<close>

definition bump :: "entry \<Rightarrow> entry" where
  "bump e = e\<lparr>access_count := access_count e + 1\<rparr>"

definition bump_key :: "string \<Rightarrow> (string \<times> entry) list \<Rightarrow> (string \<times> entry) list" where
  "bump_key k store =
     (case map_of store k of None \<Rightarrow> store | Some e \<Rightarrow> AList.update k (bump e) store)"

lemma map_of_bump_key:
  "map_of (bump_key k store) k' =
     (if k' = k then map_option bump (map_of store k) else map_of store k')"
  by (auto simp: bump_key_def update_conv' split: option.splits)

lemma map_of_fold_bump_key:
  "distinct ks \<Longrightarrow>
     map_of (fold bump_key ks store) k' =
       (if k' \<in> set ks then map_option bump (map_of store k') else map_of store k')"
proof (induction ks arbitrary: store)
  case Nil
  then show ?case by simp
next
  case (Cons k ks)
  then have "k \<notin> set ks" "distinct ks" by simp_all
  with Cons.IH [of "bump_key k store"] show ?case
    by (auto simp: map_of_bump_key)
qed

lemma keys_bump_key: "map fst (bump_key k store) = map fst store"
proof (cases "map_of store k")
  case None
  then show ?thesis by (simp add: bump_key_def)
next
  case (Some e)
  then have "k \<in> fst ` set store" by (rule map_of_SomeD [THEN imageI, of _ _ _ fst, simplified])
  with Some show ?thesis by (simp add: bump_key_def update_keys)
qed

lemma keys_fold_bump_key: "map fst (fold bump_key ks store) = map fst store"
  by (induction ks arbitrary: store) (simp_all add: keys_bump_key)

lemma map_filter_cong_set:
  "(\<And>x. x \<in> set xs \<Longrightarrow> f x = g x) \<Longrightarrow> List.map_filter f xs = List.map_filter g xs"
  by (induction xs) (auto simp: List.map_filter_simps split: option.splits)

lemma get_short_term_loop_ok:
  assumes "faults r = []" and "distinct ks"
  shows "get_short_term_loop r ks acc =
           (Some (acc @ map bump (List.map_filter (map_of (kv r)) ks)),
            r\<lparr>kv := fold bump_key ks (kv r)\<rparr>)"
  using assms
proof (induction ks arbitrary: r acc)
  case Nil
  then show ?case by (simp add: List.map_filter_simps)
next
  case (Cons k ks)
  have nk: "k \<notin> set ks" and dk: "distinct ks" using Cons.prems by simp_all
  show ?case
  proof (cases "map_of (kv r) k")
    case None
    have step: "get_short_term_loop r (k # ks) acc = get_short_term_loop r ks acc"
      using None Cons.prems(1) by (simp add: redis_get_ok)
    have bk: "bump_key k (kv r) = kv r"
      using None by (simp add: bump_key_def)
    show ?thesis
      unfolding step Cons.IH [OF Cons.prems(1) dk]
      using None by (simp add: List.map_filter_simps bk)
  next
    case (Some e)
    let ?r2 = "r\<lparr>kv := AList.update k (bump e) (kv r)\<rparr>"
    have f2: "faults ?r2 = []" using Cons.prems(1) by simp
    have step: "get_short_term_loop r (k # ks) acc = get_short_term_loop ?r2 ks (acc @ [bump e])"
      using Some Cons.prems(1) by (simp add: redis_get_ok redis_set_ok bump_def Let_def)
    have same: "List.map_filter (map_of (kv ?r2)) ks = List.map_filter (map_of (kv r)) ks"
      by (rule map_filter_cong_set) (use nk in \<open>auto simp: update_conv'\<close>)
    have bk: "bump_key k (kv r) = AList.update k (bump e) (kv r)"
      using Some by (simp add: bump_key_def)
    show ?thesis
      unfolding step Cons.IH [OF f2 dk] same
      using Some by (simp add: List.map_filter_simps bk)
  qed
qed

lemma in_map_filter:
  "y \<in> set (List.map_filter f xs) \<longleftrightarrow> (\<exists>x\<in>set xs. f x = Some y)"
  by (induction xs) (auto split: option.splits)

lemma get_short_term_ok:
  assumes "faults r = []" and "distinct (map fst (kv r))"
  shows "get_short_term (Some r) pattern =
           (map bump (List.map_filter (map_of (kv r))
                        (filter (glob (''stm:'' @ pattern @ ''*'')) (map fst (kv r)))),
            Some (r\<lparr>kv := fold bump_key
                              (filter (glob (''stm:'' @ pattern @ ''*'')) (map fst (kv r)))
                              (kv r)\<rparr>))"
proof -
  have "distinct (filter (glob (''stm:'' @ pattern @ ''*'')) (map fst (kv r)))"
    using assms(2) by (rule distinct_filter)
  from get_short_term_loop_ok [OF assms(1) this, of "[]"] assms(1) show ?thesis
    by (simp add: get_short_term_def redis_keys_ok SHORT_TERM_PREFIX_def)
qed

lemma get_short_term_store:
  assumes "faults r = []" and "distinct (map fst (kv r))"
      and "get_short_term (Some r) pattern = (res, rc)"
  shows "\<exists>r'. rc = Some r' \<and> faults r' = [] \<and> map fst (kv r') = map fst (kv r) \<and>
           (\<forall>k. map_of (kv r') k =
                  (if glob (''stm:'' @ pattern @ ''*'') k then map_option bump (map_of (kv r) k)
                   else map_of (kv r) k)) \<and>
           (\<forall>x. x \<in> set res \<longleftrightarrow>
                  (\<exists>k e. (k, e) \<in> set (kv r) \<and> glob (''stm:'' @ pattern @ ''*'') k \<and> x = bump e))"
proof -
  let ?pat = "''stm:'' @ pattern @ ''*''"
  let ?ks = "filter (glob ?pat) (map fst (kv r))"
  let ?r' = "r\<lparr>kv := fold bump_key ?ks (kv r)\<rparr>"
  have dk: "distinct ?ks" using assms(2) by (rule distinct_filter)
  from get_short_term_ok [OF assms(1,2), of pattern] assms(3)
  have rc: "rc = Some ?r'" and res: "res = map bump (List.map_filter (map_of (kv r)) ?ks)"
    by simp_all
  have f: "faults ?r' = []" using assms(1) by simp
  have keys: "map fst (kv ?r') = map fst (kv r)" by (simp add: keys_fold_bump_key)
  have look: "map_of (kv ?r') k =
                (if glob ?pat k then map_option bump (map_of (kv r) k) else map_of (kv r) k)" for k
  proof -
    have gen: "map_of (fold bump_key ?ks (kv r)) k =
                 (if k \<in> set ?ks then map_option bump (map_of (kv r) k) else map_of (kv r) k)"
      by (rule map_of_fold_bump_key [OF dk])
    have sel: "kv ?r' = fold bump_key ?ks (kv r)" by simp
    show ?thesis
    proof (cases "k \<in> set ?ks")
      case True
      then have "glob ?pat k" by simp
      with True show ?thesis unfolding sel gen by simp
    next
      case False
      show ?thesis
      proof (cases "glob ?pat k")
        case True
        with False have "k \<notin> fst ` set (kv r)" by simp
        then have "map_of (kv r) k = None" by (simp add: map_of_eq_None_iff)
        with False True show ?thesis unfolding sel gen by simp
      next
        case g: False
        with False show ?thesis unfolding sel gen by simp
      qed
    qed
  qed
  have mem: "x \<in> set res \<longleftrightarrow> (\<exists>k e. (k, e) \<in> set (kv r) \<and> glob ?pat k \<and> x = bump e)" for x
  proof
    assume "x \<in> set res"
    then obtain e where e: "e \<in> set (List.map_filter (map_of (kv r)) ?ks)" "x = bump e"
      unfolding res by auto
    from e(1) obtain k where k: "k \<in> set ?ks" "map_of (kv r) k = Some e"
      unfolding in_map_filter by blast
    from k(1) have g: "glob ?pat k" by simp
    from k(2) have "(k, e) \<in> set (kv r)" by (rule map_of_SomeD)
    with g e(2) show "\<exists>k e. (k, e) \<in> set (kv r) \<and> glob ?pat k \<and> x = bump e"
      by blast
  next
    assume "\<exists>k e. (k, e) \<in> set (kv r) \<and> glob ?pat k \<and> x = bump e"
    then obtain k e where ke: "(k, e) \<in> set (kv r)" "glob ?pat k" "x = bump e" by blast
    from ke(1) assms(2) have "map_of (kv r) k = Some e" by simp
    moreover from ke(1,2) have "k \<in> set ?ks" by force
    ultimately have "e \<in> set (List.map_filter (map_of (kv r)) ?ks)"
      unfolding in_map_filter by blast
    with ke(3) show "x \<in> set res" unfolding res by simp
  qed
  from rc f keys look mem show ?thesis by blast
qed

definition counts_kept :: "(string \<times> entry) list \<Rightarrow> (string \<times> entry) list \<Rightarrow> bool" where
  "counts_kept before after \<longleftrightarrow>
     (\<forall>k e. map_of before k = Some e \<longrightarrow>
        (\<exists>e'. map_of after k = Some e' \<and> access_count e \<le> access_count e'))"

lemma counts_kept_refl: "counts_kept a a"
  by (simp add: counts_kept_def)

lemma counts_kept_trans: "counts_kept a b \<Longrightarrow> counts_kept b c \<Longrightarrow> counts_kept a c"
  unfolding counts_kept_def by (meson order_trans)

lemma counts_kept_bump:
  "map_of a k = Some e \<Longrightarrow> counts_kept a (AList.update k (e\<lparr>access_count := access_count e + 1\<rparr>) a)"
  by (auto simp: counts_kept_def update_conv')

lemma redis_set_cases:
  "redis_set r k v = (res, r') \<Longrightarrow>
     (res = None \<and> kv r' = kv r) \<or> (res = Some () \<and> kv r' = AList.update k v (kv r))"
  by (auto simp: redis_set_def next_fault_def split: list.splits if_splits)

lemma get_short_term_loop_mono:
  "get_short_term_loop r ks acc = (res, r') \<Longrightarrow> counts_kept (kv r) (kv r')"
proof (induction ks arbitrary: r acc)
  case Nil
  then show ?case by (simp add: counts_kept_refl)
next
  case (Cons k ks)
  obtain g r1 where g: "redis_get r k = (g, r1)" by (cases "redis_get r k")
  from redis_get_cases [OF g] have kv1: "kv r1 = kv r"
    and gv: "g = None \<or> g = Some (map_of (kv r) k)" by simp_all
  from gv show ?case
  proof
    assume "g = None"
    with Cons.prems g kv1 show ?thesis by (simp add: counts_kept_refl)
  next
    assume gs: "g = Some (map_of (kv r) k)"
    show ?thesis
    proof (cases "map_of (kv r) k")
      case None
      with Cons.prems g gs have "get_short_term_loop r1 ks acc = (res, r')" by simp
      from Cons.IH [OF this] kv1 show ?thesis by simp
    next
      case (Some e)
      let ?p = "e\<lparr>access_count := access_count e + 1\<rparr>"
      obtain w r2 where w: "redis_set r1 k ?p = (w, r2)" by (cases "redis_set r1 k ?p")
      from redis_set_cases [OF w] kv1
      have wc: "(w = None \<and> kv r2 = kv r) \<or> (w = Some () \<and> kv r2 = AList.update k ?p (kv r))"
        by simp
      then show ?thesis
      proof
        assume f: "w = None \<and> kv r2 = kv r"
        with Cons.prems g gs Some w have "r' = r2" by (simp add: Let_def)
        with f show ?thesis by (simp add: counts_kept_refl)
      next
        assume f: "w = Some () \<and> kv r2 = AList.update k ?p (kv r)"
        with Cons.prems g gs Some w
        have "get_short_term_loop r2 ks (acc @ [?p]) = (res, r')" by (simp add: Let_def)
        from Cons.IH [OF this] have "counts_kept (kv r2) (kv r')" .
        with counts_kept_bump [OF Some] f show ?thesis
          by (auto intro: counts_kept_trans)
      qed
    qed
  qed
qed

lemma get_short_term_mono:
  assumes "get_short_term (Some r) pattern = (res, rc)"
  shows "\<exists>r'. rc = Some r' \<and> counts_kept (kv r) (kv r')"
proof -
  let ?pat = "SHORT_TERM_PREFIX @ pattern @ ''*''"
  obtain ks r1 where k: "redis_keys r ?pat = (ks, r1)" by (cases "redis_keys r ?pat")
  from redis_keys_cases [OF k] have kv1: "kv r1 = kv r" by simp
  show ?thesis
  proof (cases ks)
    case None
    with assms k kv1 show ?thesis
      by (auto simp: get_short_term_def counts_kept_refl)
  next
    case (Some keys)
    obtain out r2 where l: "get_short_term_loop r1 keys [] = (out, r2)"
      by (cases "get_short_term_loop r1 keys []")
    from get_short_term_loop_mono [OF l] kv1 have "counts_kept (kv r) (kv r2)" by simp
    with assms k Some l show ?thesis
      by (auto simp: get_short_term_def split: option.splits)
  qed
qed

subsection \<open>The access count\<close>

text \<open>
  \<open>store_of s\<close> is the ephemeral store as the server sees it (empty without a Redis
  client). \<open>never_decreased s s'\<close> says that no entry present in both states has a
  smaller \<open>access_count\<close> in the second.
\<close>

definition store_of :: "'d server \<Rightarrow> string \<Rightarrow> entry option" where
  "store_of s = (case redis_client s of None \<Rightarrow> (\<lambda>k. None) | Some r \<Rightarrow> map_of (kv r))"

definition never_decreased :: "'d server \<Rightarrow> 'd server \<Rightarrow> bool" where
  "never_decreased s s' \<longleftrightarrow>
     (\<forall>k e e'. store_of s k = Some e \<and> store_of s' k = Some e' \<longrightarrow>
        access_count e \<le> access_count e')"

lemma never_decreased_same: "redis_client s' = redis_client s \<Longrightarrow> never_decreased s s'"
  by (auto simp: never_decreased_def store_of_def)

lemma never_decreased_counts:
  "redis_client s = Some r \<Longrightarrow> redis_client s' = Some r' \<Longrightarrow> counts_kept (kv r) (kv r')
     \<Longrightarrow> never_decreased s s'"
  by (fastforce simp: never_decreased_def store_of_def counts_kept_def)

lemma never_decreased_entries:
  "redis_client s = Some r \<Longrightarrow> redis_client s' = Some r' \<Longrightarrow> entries_kept (kv r) (kv r')
     \<Longrightarrow> never_decreased s s'"
  by (fastforce simp: never_decreased_def store_of_def entries_kept_def)

lemma never_decreased_none: "redis_client s = None \<Longrightarrow> never_decreased s s'"
  by (simp add: never_decreased_def store_of_def)

lemma get_short_term_none: "get_short_term None pattern = ([], None)"
  by (simp add: get_short_term_def)

lemma store_short_term_written:
  assumes "store_short_term rc key data now = (True, rc')"
  shows "\<exists>r'. rc' = Some r' \<and>
           map_option access_count (map_of (kv r') (SHORT_TERM_PREFIX @ key)) = Some 0"
  using assms
  by (auto simp: store_short_term_def redis_set_def next_fault_def Let_def update_conv'
        short_term_data.defs
      split: option.splits list.splits if_splits prod.splits)

lemma store_short_term_others:
  assumes "store_short_term (Some r) key data now = (ok, rc')"
  shows "\<exists>r'. rc' = Some r' \<and>
           (\<forall>k. k \<noteq> SHORT_TERM_PREFIX @ key \<longrightarrow> map_of (kv r') k = map_of (kv r) k)"
  using assms
  by (auto simp: store_short_term_def redis_set_def next_fault_def Let_def update_conv'
      split: option.splits list.splits if_splits prod.splits)

lemma search_never_decreases: "never_decreased s (snd (search_memories nan_sort eng s request))"
proof -
  have snd: "snd (search_memories nan_sort eng s request) = snd (search_short_term s request)"
    by (simp add: search_memories_def Let_def split: prod.splits)
  show ?thesis
  proof (cases "redis_client s")
    case None
    then show ?thesis by (rule never_decreased_none)
  next
    case (Some r)
    show ?thesis
    proof (cases "s_include_short_term request")
      case False
      then have "snd (search_short_term s request) = s" by (simp add: search_short_term_def)
      then show ?thesis unfolding snd by (simp add: never_decreased_same)
    next
      case True
      let ?p = "py_or (s_user_id request) ''*''"
      obtain res rc where g: "get_short_term (Some r) ?p = (res, rc)"
        by (cases "get_short_term (Some r) ?p")
      from get_short_term_mono [OF g] obtain r' where r': "rc = Some r'" "counts_kept (kv r) (kv r')"
        by blast
      have "snd (search_short_term s request) = s\<lparr>redis_client := Some r'\<rparr>"
        using True Some g r'(1) by (simp add: search_short_term_def)
      then have "redis_client (snd (search_short_term s request)) = Some r'" by simp
      from never_decreased_counts [OF Some this r'(2)] show ?thesis unfolding snd .
    qed
  qed
qed

lemma user_memories_never_decreases:
  "never_decreased s (snd (get_user_memories eng s uid limit inc))"
proof (cases "redis_client s")
  case None
  then show ?thesis by (rule never_decreased_none)
next
  case (Some r)
  show ?thesis
  proof (cases inc)
    case False
    then have "snd (get_user_memories eng s uid limit inc) = s"
      by (simp add: get_user_memories_def Let_def)
    then show ?thesis by (simp add: never_decreased_same)
  next
    case True
    obtain res rc where g: "get_short_term (Some r) uid = (res, rc)"
      by (cases "get_short_term (Some r) uid")
    from get_short_term_mono [OF g] obtain r' where r': "rc = Some r'" "counts_kept (kv r) (kv r')"
      by blast
    have "snd (get_user_memories eng s uid limit inc) = s\<lparr>redis_client := Some r'\<rparr>"
      using True Some g r'(1) by (simp add: get_user_memories_def Let_def)
    then have "redis_client (snd (get_user_memories eng s uid limit inc)) = Some r'" by simp
    from never_decreased_counts [OF Some this r'(2)] show ?thesis .
  qed
qed

lemma promote_never_decreases: "never_decreased s (snd (promote_memories eng s request))"
proof (cases "redis_client s")
  case None
  then show ?thesis by (rule never_decreased_none)
next
  case (Some r)
  show ?thesis
  proof (cases "memory s")
    case None
    then have "snd (promote_memories eng s request) = s" by (simp add: promote_memories_def)
    then show ?thesis by (simp add: never_decreased_same)
  next
    case d: (Some d)
    obtain batch rc where scan: "get_promotable_memories (Some r) (p_user_id request) = (batch, rc)"
      by (cases "get_promotable_memories (Some r) (p_user_id request)")
    obtain r0 where r0: "rc = Some r0" "kv r0 = kv r"
      using get_promotable_memories_any [OF scan] by blast
    let ?s0 = "s\<lparr>redis_client := rc\<rparr>"
    let ?loop = "promote_loop eng ?s0 batch []"
    have s0: "memory ?s0 = Some d" "redis_client ?s0 = Some r0"
      using d r0 by simp_all
    have run: "snd (promote_memories eng s request) = snd ?loop"
      using promote_memories_run [of s d request batch rc eng] d Some scan by simp
    from promote_loop_store [OF s0, of eng batch "[]"]
    obtain r' where r': "redis_client (snd ?loop) = Some r'" "entries_kept (kv r0) (kv r')"
      by blast
    from r'(2) r0(2) have "entries_kept (kv r) (kv r')" by simp
    from never_decreased_entries [OF Some _ this] r'(1) run show ?thesis by simp
  qed
qed

lemma add_other_keys:
  "k \<noteq> SHORT_TERM_PREFIX @ memory_key_of e request
     \<Longrightarrow> store_of (snd (add_memory eng e s request)) k = store_of s k"
proof -
  assume k: "k \<noteq> SHORT_TERM_PREFIX @ memory_key_of e request"
  let ?data = "\<lparr>messages = add_messages request, user_id = add_user_id request,
                 agent_id = add_agent_id request, session_id = add_session_id request,
                 metadata = add_metadata request\<rparr>"
  obtain ok rc where st: "store_short_term (redis_client s) (memory_key_of e request) ?data
                            (isoformat_now e) = (ok, rc)"
    by (cases "store_short_term (redis_client s) (memory_key_of e request) ?data (isoformat_now e)")
  have rcl: "redis_client (snd (add_memory eng e s request)) = rc"
    using st by (simp add: add_memory_def Let_def memory_add_def split: prod.splits option.splits)
  show ?thesis
  proof (cases "redis_client s")
    case None
    with st have "rc = None" by (simp add: store_short_term_def)
    with rcl None show ?thesis by (simp add: store_of_def)
  next
    case (Some r)
    with st store_short_term_others [of r "memory_key_of e request" ?data "isoformat_now e" ok rc]
    obtain r' where "rc = Some r'" "map_of (kv r') k = map_of (kv r) k"
      using k by auto
    with rcl Some show ?thesis by (simp add: store_of_def)
  qed
qed

text \<open>
  C4 as stated fails twice. An add that generates the key of an existing entry (same
  owner, same second, same digest) overwrites it with \<open>access_count\<close> 0: after an
  add, a read and the same add again, the count under the key goes 0, 1, 0. And a
  \<open>get_short_term\<close> call that matches an entry and finds it present does not
  increment it when the Redis write raises.
\<close>

theorem access_count_counterexample:
  "map_option access_count
     (store_of (snd (add_memory sample_engine sample_env (sample_server [] [])
                       (sample_add ''u1'' ''I like tea'' True)))
        ''stm:u1:20240101000000:0a1b2c3d'') = Some 0 \<and>
   map_option access_count
     (store_of (snd (get_user_memories sample_engine
                  (snd (add_memory sample_engine sample_env (sample_server [] [])
                          (sample_add ''u1'' ''I like tea'' True)))
                  ''u1'' 50 True))
        ''stm:u1:20240101000000:0a1b2c3d'') = Some 1 \<and>
   map_option access_count
     (store_of (snd (add_memory sample_engine sample_env
                  (snd (get_user_memories sample_engine
                          (snd (add_memory sample_engine sample_env (sample_server [] [])
                                  (sample_add ''u1'' ''I like tea'' True)))
                          ''u1'' 50 True))
                  (sample_add ''u1'' ''I like tea'' True)))
        ''stm:u1:20240101000000:0a1b2c3d'') = Some 0 \<and>
   glob (SHORT_TERM_PREFIX @ ''u1'' @ ''*'') ''stm:u1:20240101000000:0a1b2c3d'' \<and>
   get_short_term
       (Some \<lparr>kv = [(''stm:u1:20240101000000:0a1b2c3d'', sample_entry ''u1'' ''I like tea'' 1)],
              faults = [False, False, True]\<rparr>) ''u1''
     = ([], Some \<lparr>kv = [(''stm:u1:20240101000000:0a1b2c3d'', sample_entry ''u1'' ''I like tea'' 1)],
                   faults = []\<rparr>)"
  by code_simp

text \<open>
  C4, amended. An entry written by \<open>store_short_term\<close> has \<open>access_count\<close> 0. A
  \<open>get_short_term\<close> call during which no Redis call raises, on a store with one entry
  per key, increments by exactly 1 the count of every entry whose key matches its
  pattern, returns the incremented document, and leaves every other entry as it was.
  No search, user-memories or promote request decreases the count of an entry that is
  in the store before and after it, whatever Redis calls raise. An add request changes
  no entry but the one under the key it generates, which it overwrites.
\<close>

theorem access_count_lifecycle:
  "(store_short_term rc key data now = (True, rc') \<longrightarrow>
      (\<exists>r'. rc' = Some r' \<and>
         map_option access_count (map_of (kv r') (SHORT_TERM_PREFIX @ key)) = Some 0)) \<and>
   (faults r = [] \<and> distinct (map fst (kv r)) \<longrightarrow>
      (\<exists>res r'. get_short_term (Some r) pattern = (res, Some r') \<and>
         (\<forall>k e. map_of (kv r) k = Some e \<and> glob (SHORT_TERM_PREFIX @ pattern @ ''*'') k \<longrightarrow>
            map_of (kv r') k = Some (bump e) \<and> access_count (bump e) = access_count e + 1 \<and>
            bump e \<in> set res) \<and>
         (\<forall>k. \<not> glob (SHORT_TERM_PREFIX @ pattern @ ''*'') k \<longrightarrow>
            map_of (kv r') k = map_of (kv r) k))) \<and>
   never_decreased s (snd (search_memories nan_sort eng s srequest)) \<and>
   never_decreased s (snd (get_user_memories eng s uid limit inc)) \<and>
   never_decreased s (snd (promote_memories eng s prequest)) \<and>
   (\<forall>k. k \<noteq> SHORT_TERM_PREFIX @ memory_key_of e arequest \<longrightarrow>
      store_of (snd (add_memory eng e s arequest)) k = store_of s k)"
proof -
  have c1: "store_short_term rc key data now = (True, rc') \<longrightarrow>
      (\<exists>r'. rc' = Some r' \<and>
         map_option access_count (map_of (kv r') (SHORT_TERM_PREFIX @ key)) = Some 0)"
    using store_short_term_written by blast
  have c2: "faults r = [] \<and> distinct (map fst (kv r)) \<longrightarrow>
      (\<exists>res r'. get_short_term (Some r) pattern = (res, Some r') \<and>
         (\<forall>k e. map_of (kv r) k = Some e \<and> glob (SHORT_TERM_PREFIX @ pattern @ ''*'') k \<longrightarrow>
            map_of (kv r') k = Some (bump e) \<and> access_count (bump e) = access_count e + 1 \<and>
            bump e \<in> set res) \<and>
         (\<forall>k. \<not> glob (SHORT_TERM_PREFIX @ pattern @ ''*'') k \<longrightarrow>
            map_of (kv r') k = map_of (kv r) k))"
  proof
    assume a: "faults r = [] \<and> distinct (map fst (kv r))"
    obtain res rc where g: "get_short_term (Some r) pattern = (res, rc)"
      by (cases "get_short_term (Some r) pattern")
    from a have nf: "faults r = []" and di: "distinct (map fst (kv r))" by simp_all
    from get_short_term_store [OF nf di g]
    obtain r' where r': "rc = Some r'"
      "\<forall>k. map_of (kv r') k =
             (if glob (''stm:'' @ pattern @ ''*'') k then map_option bump (map_of (kv r) k)
              else map_of (kv r) k)"
      "\<forall>x. x \<in> set res \<longleftrightarrow>
             (\<exists>k e. (k, e) \<in> set (kv r) \<and> glob (''stm:'' @ pattern @ ''*'') k \<and> x = bump e)"
      by blast
    have inc: "map_of (kv r') k = Some (bump e) \<and> access_count (bump e) = access_count e + 1 \<and>
               bump e \<in> set res"
      if "map_of (kv r) k = Some e \<and> glob (SHORT_TERM_PREFIX @ pattern @ ''*'') k" for k e
    proof -
      from that have m: "map_of (kv r) k = Some e" and gl: "glob (''stm:'' @ pattern @ ''*'') k"
        by (simp_all add: SHORT_TERM_PREFIX_def)
      from m have "(k, e) \<in> set (kv r)" by (rule map_of_SomeD)
      with gl r'(3) have "bump e \<in> set res" by blast
      moreover from r'(2) m gl have "map_of (kv r') k = Some (bump e)" by simp
      ultimately show ?thesis by (simp add: bump_def)
    qed
    have other: "map_of (kv r') k = map_of (kv r) k"
      if "\<not> glob (SHORT_TERM_PREFIX @ pattern @ ''*'') k" for k
      using that r'(2) by (simp add: SHORT_TERM_PREFIX_def)
    from g r'(1) inc other
    show "\<exists>res r'. get_short_term (Some r) pattern = (res, Some r') \<and>
         (\<forall>k e. map_of (kv r) k = Some e \<and> glob (SHORT_TERM_PREFIX @ pattern @ ''*'') k \<longrightarrow>
            map_of (kv r') k = Some (bump e) \<and> access_count (bump e) = access_count e + 1 \<and>
            bump e \<in> set res) \<and>
         (\<forall>k. \<not> glob (SHORT_TERM_PREFIX @ pattern @ ''*'') k \<longrightarrow>
            map_of (kv r') k = map_of (kv r) k)"
      by blast
  qed
  have c6: "\<forall>k. k \<noteq> SHORT_TERM_PREFIX @ memory_key_of e arequest \<longrightarrow>
      store_of (snd (add_memory eng e s arequest)) k = store_of s k"
    using add_other_keys by blast
  from c1 c2 search_never_decreases [of s nan_sort eng srequest]
    user_memories_never_decreases [of s eng uid limit inc]
    promote_never_decreases [of s eng prequest] c6
  show ?thesis by (intro conjI)
qed

text \<open>
  One entry of \<open>u1\<close> read once through the user-memories request: its count goes from
  1 to 2 and the returned document carries the count 2.
\<close>

theorem access_count_lifecycle_witness:
  "faults \<lparr>kv = [(''stm:u1:20240101000000:0a1b2c3d'', sample_entry ''u1'' ''I like tea'' 1)],
           faults = []\<rparr> = [] \<and>
   get_short_term
       (Some \<lparr>kv = [(''stm:u1:20240101000000:0a1b2c3d'', sample_entry ''u1'' ''I like tea'' 1)],
              faults = []\<rparr>) ''u1''
     = ([sample_entry ''u1'' ''I like tea'' 2],
        Some \<lparr>kv = [(''stm:u1:20240101000000:0a1b2c3d'', sample_entry ''u1'' ''I like tea'' 2)],
              faults = []\<rparr>) \<and>
   store_short_term (Some \<lparr>kv = [], faults = []\<rparr>) ''u1:20240101000000:0a1b2c3d''
       \<lparr>messages = [], user_id = Some ''u1'', agent_id = None, session_id = None, metadata = None\<rparr>
       ''2024-01-01T00:00:00.000001''
     = (True, Some \<lparr>kv = [(''stm:u1:20240101000000:0a1b2c3d'',
                             (sample_entry ''u1'' [] 0)\<lparr>messages := []\<rparr>)], faults = []\<rparr>)"
proof -
  have ev: "get_short_term
       (Some \<lparr>kv = [(''stm:u1:20240101000000:0a1b2c3d'', sample_entry ''u1'' ''I like tea'' 1)],
              faults = []\<rparr>) ''u1''
     = ([sample_entry ''u1'' ''I like tea'' 2],
        Some \<lparr>kv = [(''stm:u1:20240101000000:0a1b2c3d'', sample_entry ''u1'' ''I like tea'' 2)],
              faults = []\<rparr>)"
    by code_simp
  have st: "store_short_term (Some \<lparr>kv = [], faults = []\<rparr>) ''u1:20240101000000:0a1b2c3d''
       \<lparr>messages = [], user_id = Some ''u1'', agent_id = None, session_id = None, metadata = None\<rparr>
       ''2024-01-01T00:00:00.000001''
     = (True, Some \<lparr>kv = [(''stm:u1:20240101000000:0a1b2c3d'',
                             (sample_entry ''u1'' [] 0)\<lparr>messages := []\<rparr>)], faults = []\<rparr>)"
    by code_simp
  show ?thesis
    using ev st
      access_count_lifecycle
        [of "Some \<lparr>kv = [], faults = []\<rparr>" "''u1:20240101000000:0a1b2c3d''"
            "\<lparr>messages = [], user_id = Some ''u1'', agent_id = None, session_id = None,
              metadata = None\<rparr>" "''2024-01-01T00:00:00.000001''"
            "Some \<lparr>kv = [(''stm:u1:20240101000000:0a1b2c3d'',
                            (sample_entry ''u1'' [] 0)\<lparr>messages := []\<rparr>)], faults = []\<rparr>"
            "\<lparr>kv = [(''stm:u1:20240101000000:0a1b2c3d'', sample_entry ''u1'' ''I like tea'' 1)],
              faults = []\<rparr>"]
    by simp
qed

subsection \<open>Owners whose ids share a prefix\<close>

lemma owner_segment_eq:
  assumes "c \<notin> set u" and "c \<notin> set u'"
  shows "prefix (u @ [c]) (u' @ c # rest) \<longleftrightarrow> u' = u"
  using assms
proof (induction u arbitrary: u')
  case Nil
  then show ?case by (cases u') auto
next
  case (Cons a u)
  then show ?case by (cases u') auto
qed

lemma keyword_match_bump: "keyword_match q (bump e) = keyword_match q e"
  by (simp add: keyword_match_def bump_def)

lemma get_short_term_prefix:
  assumes nf: "faults r = []" and di: "distinct (map fst (kv r))"
      and pl: "glob_plain u" and m: "map_of (kv r) k = Some e"
      and pre: "prefix (''stm:'' @ u) k"
  shows "\<exists>res r'. get_short_term (Some r) u = (res, Some r') \<and>
           map_of (kv r') k = Some (bump e) \<and> bump e \<in> set res"
proof -
  have gp: "glob_plain (''stm:'' @ u)" using pl by (simp add: glob_plain_def)
  have gl: "glob (''stm:'' @ u @ ''*'') k"
    using glob_prefix_star [OF gp, of k] pre by simp
  obtain res rc where g: "get_short_term (Some r) u = (res, rc)"
    by (cases "get_short_term (Some r) u")
  from get_short_term_store [OF nf di g]
  obtain r' where r': "rc = Some r'"
    "\<forall>k. map_of (kv r') k =
           (if glob (''stm:'' @ u @ ''*'') k then map_option bump (map_of (kv r) k)
            else map_of (kv r) k)"
    "\<forall>x. x \<in> set res \<longleftrightarrow>
           (\<exists>k e. (k, e) \<in> set (kv r) \<and> glob (''stm:'' @ u @ ''*'') k \<and> x = bump e)"
    by blast
  from m have "(k, e) \<in> set (kv r)" by (rule map_of_SomeD)
  with gl r'(3) have a: "bump e \<in> set res" by blast
  from r'(2) m gl have b: "map_of (kv r') k = Some (bump e)" by simp
  from g r'(1) a b show ?thesis by blast
qed

definition colon_store :: "(string \<times> entry) list" where
  "colon_store =
     [(''stm:u1:x:20240101000000:0a1b2c3d'', sample_entry ''u1:x'' ''Tea with milk'' 3)]"

definition prefix_store :: "(string \<times> entry) list" where
  "prefix_store =
     [(''stm:u1:20240101000000:0a1b2c3d'', sample_entry ''u1'' ''I like tea'' 3),
      (''stm:u10:20240101000007:11223344'', sample_entry ''u10'' ''Tea at nine'' 5)]"

text \<open>
  An entry of the merge is returned when the limit is at least the number of merged
  entries whose key is at least its own, no key being NaN: the entries that the sort puts
  before it are among these.
\<close>

lemma py_sort_reverse_top:
  assumes nn: "\<forall>y\<in>set xs. key y \<noteq> NaN" and x: "x \<in> set xs"
      and c: "int (length (filter (\<lambda>y. py_float_ge (key y) (key x)) xs)) \<le> n"
  shows "x \<in> set (py_slice_to n (py_sort_reverse nan_sort key xs))"
proof -
  let ?f = "\<lambda>y. desc_rank (key y)"
  let ?ys = "sort_key ?f xs"
  let ?P = "\<lambda>y. ?f y \<le> ?f x"
  have P: "filter (\<lambda>y. py_float_ge (key y) (key x)) xs = filter ?P xs"
    by (rule filter_cong) (use nn x in \<open>simp_all add: desc_rank_le\<close>)
  have "x \<in> set ?ys" using x by simp
  then obtain i where i: "i < length ?ys" "?ys ! i = x"
    unfolding in_set_conv_nth by blast
  have srt: "sorted (map ?f ?ys)" by (rule sorted_sort_key)
  have before: "?P y" if "y \<in> set (take (Suc i) ?ys)" for y
  proof -
    from that obtain j where j: "j < Suc i" "j < length ?ys" "y = ?ys ! j"
      by (auto simp: in_set_conv_nth)
    have "map ?f ?ys ! j \<le> map ?f ?ys ! i"
      by (rule sorted_nth_mono [OF srt]) (use j i in simp_all)
    then show ?thesis using i j by simp
  qed
  have "filter ?P (take (Suc i) ?ys) = take (Suc i) ?ys"
    by (rule filter_True) (use before in blast)
  then have "length (filter ?P (take (Suc i) ?ys)) = Suc i"
    using i by simp
  moreover have "length (filter ?P (take (Suc i) ?ys)) + length (filter ?P (drop (Suc i) ?ys))
                   = length (filter ?P ?ys)"
    by (metis append_take_drop_id filter_append length_append)
  moreover have "length (filter ?P ?ys) = length (filter ?P xs)"
    by (simp add: filter_sort)
  ultimately have "Suc i \<le> length (filter ?P xs)" by linarith
  with c P have n: "int (Suc i) \<le> n" by simp
  have "x \<in> set (take (nat n) ?ys)"
    unfolding in_set_conv_nth
    by (rule exI [of _ i]) (use n i in simp)
  then show ?thesis
    using n by (simp add: py_slice_to_def py_sort_reverse_no_nan [OF nn])
qed

text \<open>
  C10 as stated fails three times. The scan for an owner does not match that owner
  exactly: the key written for the owner \<open>u1:x\<close> begins with \<open>stm:u1:\<close>, so the scan
  for \<open>u1\<close> returns the entry of \<open>u1:x\<close>. A search for the shorter id increments the
  other owner's entries but returns only those that match the query: the search for
  \<open>u1\<close> and \<open>tea\<close> raises the count of the entry \<open>Coffee at nine\<close> of \<open>u10\<close>
  from 5 to 6 and returns no memory of \<open>u10\<close>. And an entry that matches is returned
  only within the limit: with limit 0 the search for \<open>u1\<close> and \<open>tea\<close> raises the
  count of the entry \<open>Tea at nine\<close> of \<open>u10\<close> from 5 to 6 and returns nothing.
\<close>

theorem owner_prefix_counterexample:
  "SHORT_TERM_PREFIX @ memory_key_of sample_env (sample_add ''u1:x'' ''Tea with milk'' True)
     = ''stm:u1:x:20240101000000:0a1b2c3d'' \<and>
   map (\<lambda>p. user_id (mem p))
     (fst (get_promotable_memories (Some \<lparr>kv = colon_store, faults = []\<rparr>) (Some ''u1'')))
     = [Some ''u1:x''] \<and>
   map r_user_id
     (memories (case fst (search_memories (\<lambda>xs. xs) sample_engine
                            (sample_server scan_store []) (tea_search 10))
                of Inr resp \<Rightarrow> resp))
     = [Some ''u1'', Some ''u1''] \<and>
   map_option access_count
     (store_of (sample_server scan_store []) ''stm:u10:20240101000007:11223344'') = Some 5 \<and>
   map_option access_count
     (store_of (snd (search_memories (\<lambda>xs. xs) sample_engine
                       (sample_server scan_store []) (tea_search 10)))
        ''stm:u10:20240101000007:11223344'') = Some 6 \<and>
   keyword_match (s_query (tea_search 0)) (sample_entry ''u10'' ''Tea at nine'' 5) \<and>
   memories (case fst (search_memories (\<lambda>xs. xs) sample_engine
                         (sample_server prefix_store []) (tea_search 0))
             of Inr resp \<Rightarrow> resp) = [] \<and>
   map_option access_count
     (store_of (sample_server prefix_store []) ''stm:u10:20240101000007:11223344'') = Some 5 \<and>
   map_option access_count
     (store_of (snd (search_memories (\<lambda>xs. xs) sample_engine
                       (sample_server prefix_store []) (tea_search 0)))
        ''stm:u10:20240101000007:11223344'') = Some 6"
  by code_simp

text \<open>
  C10, amended. Take an owner id \<open>u\<close> without glob characters. The reads of search
  and of the user-memories request use the pattern \<open>stm:{u}*\<close>, which matches
  exactly the keys that begin with \<open>stm:{u}\<close>, so every key of an owner whose id
  begins with \<open>u\<close>. For an entry under such a key, on a store with one entry per key
  and when no Redis call raises: the user-memories request for \<open>u\<close> increments its
  \<open>access_count\<close> and returns it; a search for a non-empty \<open>u\<close> that includes the
  short-term tier increments it and, when it matches the query by keyword, has it among
  the ephemeral matches that enter the merge, and returns it whenever no durable score is
  NaN and the limit is at least the number of merged results whose key \<open>score or 0\<close>
  is at least 0.8. The eligibility scan uses \<open>stm:{u}:*\<close>, which matches exactly the
  keys that begin with \<open>stm:{u}:\<close>; among owner ids that contain no colon this is the
  owner \<open>u\<close> alone.
\<close>

theorem owner_prefix_collision:
  assumes pl: "glob_plain u"
  shows "(glob (SHORT_TERM_PREFIX @ u @ ''*'') k \<longleftrightarrow> prefix (SHORT_TERM_PREFIX @ u) k) \<and>
         glob (SHORT_TERM_PREFIX @ u @ ''*'') (SHORT_TERM_PREFIX @ (u @ x) @ '':'' @ rest) \<and>
         (redis_client s = Some r \<and> faults r = [] \<and> distinct (map fst (kv r)) \<and>
          map_of (kv r) k = Some e \<and> prefix (SHORT_TERM_PREFIX @ u) k \<longrightarrow>
            (\<exists>resp s'. get_user_memories eng s u limit True = (Inr resp, s') \<and>
               store_of s' k = Some (bump e) \<and>
               Inl (user_short_term u (bump e)) \<in> set (um_memories resp)) \<and>
            (u \<noteq> [] \<and> s_user_id request = Some u \<and> s_include_short_term request \<longrightarrow>
               (\<exists>resp s'. search_memories nan_sort eng s request = (Inr resp, s') \<and>
                  store_of s' k = Some (bump e) \<and>
                  (keyword_match (s_query request) e \<longrightarrow>
                     short_term_response (bump e) \<in> set (fst (search_short_term s request)) \<and>
                     ((\<forall>y\<in>set (search_long_term eng s' request). score y \<noteq> Some NaN) \<and>
                      int (length (filter (\<lambda>y. py_float_ge (score_or_0 y) (Finite (8 / 10)))
                                     (fst (search_short_term s request)
                                      @ search_long_term eng s' request)))
                        \<le> s_limit request \<longrightarrow>
                        short_term_response (bump e) \<in> set (memories resp)))))) \<and>
         (u \<noteq> [] \<longrightarrow>
            (glob (SHORT_TERM_PREFIX @ py_or (Some u) ''*'' @ '':*'') k \<longleftrightarrow>
               prefix (SHORT_TERM_PREFIX @ u @ '':'') k)) \<and>
         (u \<noteq> [] \<and> CHR '':'' \<notin> set u \<and> CHR '':'' \<notin> set u' \<longrightarrow>
            (glob (SHORT_TERM_PREFIX @ py_or (Some u) ''*'' @ '':*'')
                (SHORT_TERM_PREFIX @ u' @ '':'' @ rest) \<longleftrightarrow> u' = u))"
proof -
  let ?ge = "\<lambda>y. py_float_ge (score_or_0 y) (Finite (8 / 10))"
  have gp: "glob_plain (''stm:'' @ u)" using pl by (simp add: glob_plain_def)
  have c1: "glob (SHORT_TERM_PREFIX @ u @ ''*'') k \<longleftrightarrow> prefix (SHORT_TERM_PREFIX @ u) k" for k
    using glob_prefix_star [OF gp, of k] by (simp add: SHORT_TERM_PREFIX_def)
  have c2: "glob (SHORT_TERM_PREFIX @ u @ ''*'') (SHORT_TERM_PREFIX @ (u @ x) @ '':'' @ rest)"
    unfolding c1 by (simp add: SHORT_TERM_PREFIX_def)
  have c3: "(\<exists>resp s'. get_user_memories eng s u limit True = (Inr resp, s') \<and>
               store_of s' k = Some (bump e) \<and>
               Inl (user_short_term u (bump e)) \<in> set (um_memories resp)) \<and>
            (u \<noteq> [] \<and> s_user_id request = Some u \<and> s_include_short_term request \<longrightarrow>
               (\<exists>resp s'. search_memories nan_sort eng s request = (Inr resp, s') \<and>
                  store_of s' k = Some (bump e) \<and>
                  (keyword_match (s_query request) e \<longrightarrow>
                     short_term_response (bump e) \<in> set (fst (search_short_term s request)) \<and>
                     ((\<forall>y\<in>set (search_long_term eng s' request). score y \<noteq> Some NaN) \<and>
                      int (length (filter ?ge (fst (search_short_term s request)
                                               @ search_long_term eng s' request)))
                        \<le> s_limit request \<longrightarrow>
                        short_term_response (bump e) \<in> set (memories resp)))))"
    if h: "redis_client s = Some r \<and> faults r = [] \<and> distinct (map fst (kv r)) \<and>
          map_of (kv r) k = Some e \<and> prefix (SHORT_TERM_PREFIX @ u) k"
  proof -
    from h have cl: "redis_client s = Some r" and nf: "faults r = []"
      and di: "distinct (map fst (kv r))" and m: "map_of (kv r) k = Some e"
      and pre: "prefix (''stm:'' @ u) k"
      by (simp_all add: SHORT_TERM_PREFIX_def)
    from get_short_term_prefix [OF nf di pl m pre]
    obtain res r' where g: "get_short_term (Some r) u = (res, Some r')"
      "map_of (kv r') k = Some (bump e)" "bump e \<in> set res"
      by blast
    let ?s' = "s\<lparr>redis_client := Some r'\<rparr>"
    have st: "store_of ?s' k = Some (bump e)" using g(2) by (simp add: store_of_def)
    obtain resp where um: "get_user_memories eng s u limit True = (Inr resp, ?s')"
      "um_memories resp = map Inl (map (user_short_term u) res) @
         map Inr (case memory ?s' of None \<Rightarrow> []
                  | Some d \<Rightarrow> (case mem0_get_all eng d u limit of None \<Rightarrow> [] | Some items \<Rightarrow> items))"
      using cl g(1) by (simp add: get_user_memories_def Let_def)
    have "Inl (user_short_term u (bump e)) \<in> set (um_memories resp)"
      unfolding um(2) using g(3) by simp
    with um(1) st
    have user: "\<exists>resp s'. get_user_memories eng s u limit True = (Inr resp, s') \<and>
               store_of s' k = Some (bump e) \<and>
               Inl (user_short_term u (bump e)) \<in> set (um_memories resp)"
      by blast
    have search: "\<exists>resp s'. search_memories nan_sort eng s request = (Inr resp, s') \<and>
                  store_of s' k = Some (bump e) \<and>
                  (keyword_match (s_query request) e \<longrightarrow>
                     short_term_response (bump e) \<in> set (fst (search_short_term s request)) \<and>
                     ((\<forall>y\<in>set (search_long_term eng s' request). score y \<noteq> Some NaN) \<and>
                      int (length (filter ?ge (fst (search_short_term s request)
                                               @ search_long_term eng s' request)))
                        \<le> s_limit request \<longrightarrow>
                        short_term_response (bump e) \<in> set (memories resp)))"
      if q: "u \<noteq> [] \<and> s_user_id request = Some u \<and> s_include_short_term request"
    proof -
      let ?x = "short_term_response (bump e)"
      let ?eph = "fst (search_short_term s request)"
      let ?dur = "search_long_term eng ?s' request"
      let ?final = "py_slice_to (s_limit request)
                      (py_sort_reverse nan_sort score_or_0 (?eph @ ?dur))"
      let ?resp = "\<lparr>memories = ?final, count = length ?final,
               sources_short_term = length (filter (\<lambda>r. source r = ''short_term'') ?final),
               sources_long_term = length (filter (\<lambda>r. source r = ''long_term'') ?final)\<rparr>"
      from q have po: "py_or (s_user_id request) ''*'' = u" by (simp add: py_or_def)
      have sst: "search_short_term s request =
                   (map short_term_response (filter (keyword_match (s_query request)) res), ?s')"
        using q cl g(1) po by (simp add: search_short_term_def)
      have s': "snd (search_short_term s request) = ?s'"
        by (simp add: sst)
      have run: "search_memories nan_sort eng s request = (Inr ?resp, ?s')"
        by (simp add: search_memories_run Let_def s')
      have kx: "score_or_0 ?x = Finite (8 / 10)"
        by (simp add: score_or_0_def short_term_response_def)
      have b: "?x \<in> set ?eph" if "keyword_match (s_query request) e"
        unfolding sst using that g(3) by (simp add: keyword_match_bump)
      have c: "?x \<in> set ?final"
        if km: "keyword_match (s_query request) e"
          and dn: "\<forall>y\<in>set ?dur. score y \<noteq> Some NaN"
          and cnt: "int (length (filter ?ge (?eph @ ?dur))) \<le> s_limit request"
      proof -
        have nn: "\<forall>y\<in>set (?eph @ ?dur). score_or_0 y \<noteq> NaN"
          using search_keys_no_nan [of eng s request] dn by (simp add: s')
        have xin: "?x \<in> set (?eph @ ?dur)"
          using b [OF km] by simp
        have cnt': "int (length (filter (\<lambda>y. py_float_ge (score_or_0 y) (score_or_0 ?x))
                                   (?eph @ ?dur))) \<le> s_limit request"
          unfolding kx by (rule cnt)
        show ?thesis
          by (rule py_sort_reverse_top [OF nn xin cnt'])
      qed
      have sel: "memories ?resp = ?final" by simp
      have "store_of ?s' k = Some (bump e) \<and>
            (keyword_match (s_query request) e \<longrightarrow>
               ?x \<in> set ?eph \<and>
               ((\<forall>y\<in>set ?dur. score y \<noteq> Some NaN) \<and>
                int (length (filter ?ge (?eph @ ?dur))) \<le> s_limit request \<longrightarrow>
                  ?x \<in> set (memories ?resp)))"
        unfolding sel using st b c by blast
      with run show ?thesis by blast
    qed
    from user search show ?thesis by blast
  qed
  have c4: "glob (SHORT_TERM_PREFIX @ py_or (Some u) ''*'' @ '':*'') k \<longleftrightarrow>
              prefix (SHORT_TERM_PREFIX @ u @ '':'') k"
    if "u \<noteq> []" for k
    using scan_pattern_owner [OF that pl, of k] by (simp add: SHORT_TERM_PREFIX_def)
  have c5: "glob (SHORT_TERM_PREFIX @ py_or (Some u) ''*'' @ '':*'')
                (SHORT_TERM_PREFIX @ u' @ '':'' @ rest) \<longleftrightarrow> u' = u"
    if h: "u \<noteq> [] \<and> CHR '':'' \<notin> set u \<and> CHR '':'' \<notin> set u'"
  proof -
    from h have ne: "u \<noteq> []" and cu: "CHR '':'' \<notin> set u" and cu': "CHR '':'' \<notin> set u'"
      by simp_all
    have "prefix (SHORT_TERM_PREFIX @ u @ '':'') (SHORT_TERM_PREFIX @ u' @ '':'' @ rest)
            \<longleftrightarrow> prefix (u @ [CHR '':'']) (u' @ CHR '':'' # rest)"
      by simp
    also have "\<dots> \<longleftrightarrow> u' = u" by (rule owner_segment_eq [OF cu cu'])
    finally show ?thesis unfolding c4 [OF ne] .
  qed
  have d3: "redis_client s = Some r \<and> faults r = [] \<and> distinct (map fst (kv r)) \<and>
          map_of (kv r) k = Some e \<and> prefix (SHORT_TERM_PREFIX @ u) k \<longrightarrow>
            (\<exists>resp s'. get_user_memories eng s u limit True = (Inr resp, s') \<and>
               store_of s' k = Some (bump e) \<and>
               Inl (user_short_term u (bump e)) \<in> set (um_memories resp)) \<and>
            (u \<noteq> [] \<and> s_user_id request = Some u \<and> s_include_short_term request \<longrightarrow>
               (\<exists>resp s'. search_memories nan_sort eng s request = (Inr resp, s') \<and>
                  store_of s' k = Some (bump e) \<and>
                  (keyword_match (s_query request) e \<longrightarrow>
                     short_term_response (bump e) \<in> set (fst (search_short_term s request)) \<and>
                     ((\<forall>y\<in>set (search_long_term eng s' request). score y \<noteq> Some NaN) \<and>
                      int (length (filter ?ge (fst (search_short_term s request)
                                               @ search_long_term eng s' request)))
                        \<le> s_limit request \<longrightarrow>
                        short_term_response (bump e) \<in> set (memories resp)))))"
    using c3 by blast
  have d4: "u \<noteq> [] \<longrightarrow>
            (glob (SHORT_TERM_PREFIX @ py_or (Some u) ''*'' @ '':*'') k \<longleftrightarrow>
               prefix (SHORT_TERM_PREFIX @ u @ '':'') k)"
    using c4 by blast
  have d5: "u \<noteq> [] \<and> CHR '':'' \<notin> set u \<and> CHR '':'' \<notin> set u' \<longrightarrow>
            (glob (SHORT_TERM_PREFIX @ py_or (Some u) ''*'' @ '':*'')
                (SHORT_TERM_PREFIX @ u' @ '':'' @ rest) \<longleftrightarrow> u' = u)"
    using c5 by blast
  from c1 [of k] c2 d3 d4 d5 show ?thesis by (intro conjI)
qed

text \<open>
  The owners \<open>u1\<close> and \<open>u10\<close>, with an entry \<open>Tea at nine\<close> of \<open>u10\<close>. The
  user-memories request for \<open>u1\<close> returns that entry and raises its count from 5 to 6.
  The search for \<open>u1\<close> and \<open>tea\<close> with limit 10 does the same: the entry matches the
  query, the engine has no hit, two merged results have key 0.8, and the entry of
  \<open>u10\<close> is among the memories returned. The scan for \<open>u1\<close> selects the entry of
  \<open>u1\<close> alone.
\<close>

theorem owner_prefix_collision_witness:
  "glob_plain ''u1'' \<and> prefix ''u1'' ''u10'' \<and>
   keyword_match (s_query (tea_search 10)) (sample_entry ''u10'' ''Tea at nine'' 5) \<and>
   (\<exists>resp s'. get_user_memories sample_engine (sample_server prefix_store []) ''u1'' 50 True
                 = (Inr resp, s') \<and>
      store_of s' ''stm:u10:20240101000007:11223344''
        = Some (bump (sample_entry ''u10'' ''Tea at nine'' 5)) \<and>
      Inl (user_short_term ''u1'' (bump (sample_entry ''u10'' ''Tea at nine'' 5)))
        \<in> set (um_memories resp)) \<and>
   (\<exists>resp s'. search_memories (\<lambda>xs. xs) sample_engine (sample_server prefix_store [])
                 (tea_search 10) = (Inr resp, s') \<and>
      store_of s' ''stm:u10:20240101000007:11223344''
        = Some (bump (sample_entry ''u10'' ''Tea at nine'' 5)) \<and>
      short_term_response (bump (sample_entry ''u10'' ''Tea at nine'' 5))
        \<in> set (memories resp)) \<and>
   r_user_id (short_term_response (bump (sample_entry ''u10'' ''Tea at nine'' 5)))
     = Some ''u10'' \<and>
   access_count (bump (sample_entry ''u10'' ''Tea at nine'' 5)) = 6 \<and>
   map redis_key
     (fst (get_promotable_memories (Some \<lparr>kv = prefix_store, faults = []\<rparr>) (Some ''u1'')))
     = [''stm:u1:20240101000000:0a1b2c3d'']"
proof -
  let ?s = "sample_server prefix_store []"
  let ?r = "\<lparr>kv = prefix_store, faults = []\<rparr>"
  let ?k = "''stm:u10:20240101000007:11223344''"
  let ?e = "sample_entry ''u10'' ''Tea at nine'' 5"
  let ?q = "tea_search 10"
  let ?s1 = "snd (search_memories (\<lambda>xs. xs) sample_engine ?s ?q)"
  have pl: "glob_plain ''u1''" by (simp add: glob_plain_def)
  have h: "redis_client ?s = Some ?r \<and> faults ?r = [] \<and> distinct (map fst (kv ?r)) \<and>
           map_of (kv ?r) ?k = Some ?e \<and> prefix (SHORT_TERM_PREFIX @ ''u1'') ?k"
    by (simp add: sample_server_def prefix_store_def SHORT_TERM_PREFIX_def)
  have q: "''u1'' \<noteq> [] \<and> s_user_id ?q = Some ''u1'' \<and> s_include_short_term ?q"
    by (simp add: tea_search_def)
  have km: "keyword_match (s_query ?q) ?e" by code_simp
  have dn: "list_all (\<lambda>y. score y \<noteq> Some NaN) (search_long_term sample_engine ?s1 ?q)"
    by code_simp
  have cn: "int (length (filter (\<lambda>y. py_float_ge (score_or_0 y) (Finite (8 / 10)))
                           (fst (search_short_term ?s ?q)
                            @ search_long_term sample_engine ?s1 ?q)))
              \<le> s_limit ?q"
    by code_simp
  have uid: "r_user_id (short_term_response (bump ?e)) = Some ''u10''"
    by (simp add: short_term_response_def bump_def sample_entry_def)
  have cnt: "access_count (bump ?e) = 6" by (simp add: bump_def sample_entry_def)
  have scan: "map redis_key (fst (get_promotable_memories (Some ?r) (Some ''u1'')))
                = [''stm:u1:20240101000000:0a1b2c3d'']"
    by code_simp
  note inst = owner_prefix_collision [OF pl, of ?k _ _ ?s ?r ?e sample_engine 50 ?q "\<lambda>xs. xs"]
  from inst h
  have user: "\<exists>resp s'. get_user_memories sample_engine ?s ''u1'' 50 True = (Inr resp, s') \<and>
      store_of s' ?k = Some (bump ?e) \<and>
      Inl (user_short_term ''u1'' (bump ?e)) \<in> set (um_memories resp)"
    by blast
  from inst h q km
  obtain resp s' where sr: "search_memories (\<lambda>xs. xs) sample_engine ?s ?q = (Inr resp, s')"
      and st: "store_of s' ?k = Some (bump ?e)"
      and ret: "(\<forall>y\<in>set (search_long_term sample_engine s' ?q). score y \<noteq> Some NaN) \<and>
                int (length (filter (\<lambda>y. py_float_ge (score_or_0 y) (Finite (8 / 10)))
                               (fst (search_short_term ?s ?q)
                                @ search_long_term sample_engine s' ?q)))
                  \<le> s_limit ?q \<longrightarrow>
                short_term_response (bump ?e) \<in> set (memories resp)"
    by blast
  have s1: "s' = ?s1" by (simp add: sr)
  have "short_term_response (bump ?e) \<in> set (memories resp)"
    using ret dn cn unfolding s1 by (simp add: list_all_iff)
  with sr st
  have search: "\<exists>resp s'. search_memories (\<lambda>xs. xs) sample_engine ?s ?q = (Inr resp, s') \<and>
      store_of s' ?k = Some (bump ?e) \<and>
      short_term_response (bump ?e) \<in> set (memories resp)"
    by blast
  from pl km user search uid cnt scan show ?thesis
    by (intro conjI) simp_all
qed

end
